theory Spec2Isabelle
  imports Complex_Main
begin

section \<open>The scene description: prims, attributes, stage\<close>

text \<open>
  The USD library is outside the repository. A prim is modelled by what
  \<^verbatim>\<open>usd_reader_stage.cc\<close> asks of it: the schema classes it answers
  \<^verbatim>\<open>IsA<T>()\<close> for, its visibility and purpose attributes, whether transform
  operations are authored on it, and the two facts the child predicates look at.
\<close>

type_synonym TfToken = string

datatype usd_schema =
    UsdGeomCamera
  | UsdGeomBasisCurves
  | UsdGeomNurbsCurves
  | UsdGeomMesh
  | UsdLuxLight
  | UsdVolVolume
  | UsdGeomImageable
  | UsdGeomXform
  | UsdGeomScope

text \<open>
  An attribute handle that is valid: \<open>might_vary\<close> is
  \<^verbatim>\<open>ValueMightBeTimeVarying()\<close>, \<open>attr_value\<close> is the token that
  \<^verbatim>\<open>Get(&token)\<close> leaves in its argument (the empty token when nothing is read).
  An invalid handle is \<open>None\<close>.
\<close>

record UsdAttribute =
  might_vary :: bool
  attr_value :: TfToken

record prim_data =
  prim_path :: string
  schemas :: "usd_schema list"
  visibility_attr :: "UsdAttribute option"
  purpose_attr :: "UsdAttribute option"
  xform_ops_authored :: bool
  default_predicate :: bool
  instance_proxy :: bool

datatype usd_node = Node (node_data: prim_data) (node_children: "usd_node list")

text \<open>
  A \<^verbatim>\<open>UsdPrim\<close> handle knows its own data and its parent. \<open>GetParent()\<close> of the
  pseudo-root is the invalid prim, \<open>None\<close> here, and only the pseudo-root has no parent.
\<close>

record UsdPrim =
  GetData :: prim_data
  GetParent :: "prim_data option"

definition IsA :: "prim_data \<Rightarrow> usd_schema \<Rightarrow> bool" where
  "IsA p T = (T \<in> set (schemas p))"

text \<open>\<^verbatim>\<open>IsA\<close> on a possibly invalid prim; the invalid prim is of no schema.\<close>

definition IsA_opt :: "prim_data option \<Rightarrow> usd_schema \<Rightarrow> bool" where
  "IsA_opt p T = (case p of None \<Rightarrow> False | Some d \<Rightarrow> IsA d T)"

definition IsPseudoRoot :: "UsdPrim \<Rightarrow> bool" where
  "IsPseudoRoot p = (GetParent p = None)"

definition UsdGeomTokens_invisible :: TfToken where
  "UsdGeomTokens_invisible = ''invisible''"

definition UsdGeomTokens_guide :: TfToken where
  "UsdGeomTokens_guide = ''guide''"

definition UsdGeomTokens_proxy :: TfToken where
  "UsdGeomTokens_proxy = ''proxy''"

definition UsdGeomTokens_render :: TfToken where
  "UsdGeomTokens_render = ''render''"

datatype UsdInterpolationType = UsdInterpolationTypeHeld | UsdInterpolationTypeLinear

record UsdStage =
  GetPseudoRoot :: usd_node
  interpolation_type :: UsdInterpolationType

text \<open>
  Modelled from the spec: the library's prim lookup-by-path (\<^verbatim>\<open>GetPrimAtPath\<close>) is
  absent. The result is the first prim, in depth-first order, whose path is the given
  string, as the pair of its parent's data and its node; no match is the invalid prim.
\<close>

fun find_prim :: "string \<Rightarrow> prim_data option \<Rightarrow> usd_node \<Rightarrow> (prim_data option \<times> usd_node) option"
  and find_prims :: "string \<Rightarrow> prim_data \<Rightarrow> usd_node list \<Rightarrow> (prim_data option \<times> usd_node) option"
where
  "find_prim path par (Node d cs) =
     (if prim_path d = path then Some (par, Node d cs)
      else find_prims path d cs)"
| "find_prims path d [] = None"
| "find_prims path d (c # cs) =
     (case find_prim path (Some d) c of
        Some r \<Rightarrow> Some r
      | None \<Rightarrow> find_prims path d cs)"

definition GetPrimAtPath :: "UsdStage \<Rightarrow> string \<Rightarrow> (prim_data option \<times> usd_node) option" where
  "GetPrimAtPath stage path = find_prim path None (GetPseudoRoot stage)"

text \<open>
  Modelled from the spec: \<^verbatim>\<open>GetFilteredChildren\<close> with the default predicate keeps
  the children that satisfy it and are not instance proxies; wrapped in
  \<^verbatim>\<open>UsdTraverseInstanceProxies\<close> it keeps instance proxies too.
\<close>

definition filter_predicate :: "bool \<Rightarrow> prim_data \<Rightarrow> bool" where
  "filter_predicate traverse_instance_proxies d =
     (default_predicate d \<and> (traverse_instance_proxies \<or> \<not> instance_proxy d))"

definition GetFilteredChildren :: "bool \<Rightarrow> usd_node list \<Rightarrow> usd_node list" where
  "GetFilteredChildren traverse_instance_proxies cs =
     filter (\<lambda>c. filter_predicate traverse_instance_proxies (node_data c)) cs"

section \<open>Import parameters, readers and the stage reader\<close>

record USDImportParams =
  import_cameras :: bool
  import_curves :: bool
  import_meshes :: bool
  import_lights :: bool
  import_volumes :: bool
  import_instance_proxies :: bool
  import_visible_only :: bool
  import_guide :: bool
  import_proxy :: bool
  import_render :: bool
  prim_path_mask :: string

datatype reader_class =
    USDCameraReader
  | USDCurvesReader
  | USDNurbsReader
  | USDMeshReader
  | USDLightReader
  | USDVolumeReader
  | USDXformReader

type_synonym addr = nat

text \<open>
  Modelled from the spec: the reader classes (\<^verbatim>\<open>usd_reader_prim.h\<close>,
  \<^verbatim>\<open>usd_reader_xform.h\<close>) are absent. A reader wraps one prim, has a non-owning
  parent reference, the flag \<open>use_parent_xform\<close> and a reference count. A reader just
  constructed has no parent, is not merged and is retained by nobody: the count becomes 1
  on registration.
\<close>

record USDPrimReader =
  reader_class :: reader_class
  reader_prim :: UsdPrim
  reader_parent :: "addr option"
  use_parent_xform :: bool
  refcount :: int

definition construct_reader :: "reader_class \<Rightarrow> UsdPrim \<Rightarrow> USDPrimReader" where
  "construct_reader k p =
     \<lparr>reader_class = k, reader_prim = p, reader_parent = None,
      use_parent_xform = False, refcount = 0\<rparr>"

text \<open>
  The stage reader (members \<^verbatim>\<open>stage_\<close>, \<^verbatim>\<open>params_\<close>, \<^verbatim>\<open>readers_\<close> as \<open>m_stage\<close>,
  \<open>m_params\<close>, \<open>m_readers\<close>) with the memory its pointers live in. \<open>heap\<close> is the arena of reader
  objects: an address is an index, \<^verbatim>\<open>new\<close> appends, \<^verbatim>\<open>delete\<close> leaves \<open>None\<close>
  in the slot. \<open>m_readers\<close> is the vector of reader pointers (\<open>None\<close> is the null pointer),
  \<open>bmain\<close> lists the readers for which a host object was created, in order, and
  \<open>cerr\<close> the characters written to the error stream. The member \<^verbatim>\<open>settings_\<close> is
  handed to the readers and never read by the stage reader; it is left out.
\<close>

record USDStageReader =
  m_stage :: "UsdStage option"
  m_params :: USDImportParams
  m_readers :: "addr option list"
  heap :: "USDPrimReader option list"
  bmain :: "addr list"
  cerr :: string

definition deref :: "USDStageReader \<Rightarrow> addr \<Rightarrow> USDPrimReader option" where
  "deref s a = (if a < length (heap s) then heap s ! a else None)"

text \<open>
  A store through a pointer; a store through a dead pointer changes nothing. The
  traversal only stores through pointers it got from \<^verbatim>\<open>new\<close> or from a recursive
  call, which are live (\<open>traversal_inv\<close> below).
\<close>

definition update_reader ::
  "addr \<Rightarrow> (USDPrimReader \<Rightarrow> USDPrimReader) \<Rightarrow> USDStageReader \<Rightarrow> USDStageReader" where
  "update_reader a f s =
     (case deref s a of
        None \<Rightarrow> s
      | Some r \<Rightarrow> s\<lparr>heap := (heap s)[a := Some (f r)]\<rparr>)"

definition new_reader :: "reader_class \<Rightarrow> UsdPrim \<Rightarrow> USDStageReader \<Rightarrow> addr \<times> USDStageReader" where
  "new_reader k p s = (length (heap s), s\<lparr>heap := heap s @ [Some (construct_reader k p)]\<rparr>)"

definition delete_reader :: "addr \<Rightarrow> USDStageReader \<Rightarrow> USDStageReader" where
  "delete_reader a s = (if a < length (heap s) then s\<lparr>heap := (heap s)[a := None]\<rparr> else s)"

text \<open>
  Modelled from the spec: the methods of the absent reader class that the stage reader
  calls. \<^verbatim>\<open>incref\<close> and \<^verbatim>\<open>decref\<close> change the count by one, \<^verbatim>\<open>parent(reader)\<close>
  sets the parent reference, \<^verbatim>\<open>create_object(bmain, 0.0)\<close> adds the reader's host object
  to the document.
\<close>

definition incref :: "addr \<Rightarrow> USDStageReader \<Rightarrow> USDStageReader" where
  "incref a s = update_reader a (\<lambda>r. r\<lparr>refcount := refcount r + 1\<rparr>) s"

definition decref :: "addr \<Rightarrow> USDStageReader \<Rightarrow> USDStageReader" where
  "decref a s = update_reader a (\<lambda>r. r\<lparr>refcount := refcount r - 1\<rparr>) s"

definition set_parent :: "addr \<Rightarrow> addr \<Rightarrow> USDStageReader \<Rightarrow> USDStageReader" where
  "set_parent child par s = update_reader child (\<lambda>r. r\<lparr>reader_parent := Some par\<rparr>) s"

definition create_object :: "addr \<Rightarrow> USDStageReader \<Rightarrow> USDStageReader" where
  "create_object a s = s\<lparr>bmain := bmain s @ [a]\<rparr>"

definition push_back :: "addr \<Rightarrow> USDStageReader \<Rightarrow> USDStageReader" where
  "push_back a s = s\<lparr>m_readers := m_readers s @ [Some a]\<rparr>"

text \<open>The constructor: the members are set, no reader exists yet.\<close>

definition construct_stage_reader :: "UsdStage option \<Rightarrow> USDImportParams \<Rightarrow> USDStageReader" where
  "construct_stage_reader stage params =
     \<lparr>m_stage = stage, m_params = params, m_readers = [], heap = [], bmain = [], cerr = []\<rparr>"

definition valid :: "USDStageReader \<Rightarrow> bool" where
  "valid s = (m_stage s \<noteq> None)"

section \<open>\<^verbatim>\<open>usd_reader_stage.cc\<close>\<close>

definition create_reader_if_allowed :: "UsdPrim \<Rightarrow> USDStageReader \<Rightarrow> addr option \<times> USDStageReader" where
  "create_reader_if_allowed p s =
     (if import_cameras (m_params s) \<and> IsA (GetData p) UsdGeomCamera then
        (case new_reader USDCameraReader p s of (a, s') \<Rightarrow> (Some a, s'))
      else if import_curves (m_params s) \<and> IsA (GetData p) UsdGeomBasisCurves then
        (case new_reader USDCurvesReader p s of (a, s') \<Rightarrow> (Some a, s'))
      else if import_curves (m_params s) \<and> IsA (GetData p) UsdGeomNurbsCurves then
        (case new_reader USDNurbsReader p s of (a, s') \<Rightarrow> (Some a, s'))
      else if import_meshes (m_params s) \<and> IsA (GetData p) UsdGeomMesh then
        (case new_reader USDMeshReader p s of (a, s') \<Rightarrow> (Some a, s'))
      else if import_lights (m_params s) \<and> IsA (GetData p) UsdLuxLight then
        (case new_reader USDLightReader p s of (a, s') \<Rightarrow> (Some a, s'))
      else if import_volumes (m_params s) \<and> IsA (GetData p) UsdVolVolume then
        (case new_reader USDVolumeReader p s of (a, s') \<Rightarrow> (Some a, s'))
      else if IsA (GetData p) UsdGeomImageable then
        (case new_reader USDXformReader p s of (a, s') \<Rightarrow> (Some a, s'))
      else (None, s))"

definition include_by_visibility :: "USDImportParams \<Rightarrow> prim_data \<Rightarrow> bool" where
  "include_by_visibility params imageable =
     (if \<not> import_visible_only params then True
      else case visibility_attr imageable of
             None \<Rightarrow> True
           | Some attr \<Rightarrow>
               if might_vary attr then True
               else attr_value attr \<noteq> UsdGeomTokens_invisible)"

definition include_by_purpose :: "USDImportParams \<Rightarrow> prim_data \<Rightarrow> bool" where
  "include_by_purpose params imageable =
     (if import_guide params \<and> import_proxy params \<and> import_render params then True
      else case purpose_attr imageable of
             None \<Rightarrow> True
           | Some attr \<Rightarrow>
               if attr_value attr = UsdGeomTokens_guide then import_guide params
               else if attr_value attr = UsdGeomTokens_proxy then import_proxy params
               else if attr_value attr = UsdGeomTokens_render then import_render params
               else True)"

text \<open>
  \<open>derives_xform\<close> stands for the class hierarchy the \<^verbatim>\<open>dynamic_cast\<close> consults:
  which reader classes derive from \<^verbatim>\<open>USDXformReader\<close>. The class declarations are not
  part of the sources, so it is a parameter. The pointer handed in is one the traversal
  got from a recursive call; through a dead pointer nothing is read or written.
\<close>

definition merge_with_parent ::
  "(reader_class \<Rightarrow> bool) \<Rightarrow> addr \<Rightarrow> USDStageReader \<Rightarrow> bool \<times> USDStageReader" where
  "merge_with_parent derives_xform reader s =
     (case deref s reader of
        None \<Rightarrow> (False, s)
      | Some xform_reader \<Rightarrow>
          if \<not> derives_xform (reader_class xform_reader) then (False, s)
          else if use_parent_xform xform_reader then (False, s)
          else if \<not> IsA_opt (GetParent (reader_prim xform_reader)) UsdGeomXform then (False, s)
          else if IsA (GetData (reader_prim xform_reader)) UsdGeomXform
                  \<or> IsA (GetData (reader_prim xform_reader)) UsdGeomScope then (False, s)
          else if xform_ops_authored (GetData (reader_prim xform_reader)) then (False, s)
          else (True, update_reader reader (\<lambda>r. r\<lparr>use_parent_xform := True\<rparr>) s))"

text \<open>The loop \<^verbatim>\<open>for (child_reader : child_readers) child_reader->parent(reader)\<close>.\<close>

fun set_parents :: "addr list \<Rightarrow> addr \<Rightarrow> USDStageReader \<Rightarrow> USDStageReader" where
  "set_parents [] reader s = s"
| "set_parents (child_reader # child_readers) reader s =
     set_parents child_readers reader (set_parent child_reader reader s)"

text \<open>
  \<^verbatim>\<open>collect_readers(bmain, prim)\<close>. The prim handle is the node with the data of its
  parent; \<open>collect_children\<close> is the loop over the filtered children, which are prims
  whose parent is the prim at hand.
\<close>

function collect_readers_prim ::
    "(reader_class \<Rightarrow> bool) \<Rightarrow> prim_data option \<Rightarrow> usd_node \<Rightarrow> USDStageReader
      \<Rightarrow> addr option \<times> USDStageReader"
  and collect_children ::
    "(reader_class \<Rightarrow> bool) \<Rightarrow> prim_data \<Rightarrow> usd_node list \<Rightarrow> USDStageReader
      \<Rightarrow> addr list \<times> USDStageReader"
where
  "collect_readers_prim derives_xform par (Node d cs) s =
     (if IsA d UsdGeomImageable \<and> \<not> include_by_purpose (m_params s) d then (None, s)
      else if IsA d UsdGeomImageable \<and> \<not> include_by_visibility (m_params s) d then (None, s)
      else
        case collect_children derives_xform d
               (GetFilteredChildren (import_instance_proxies (m_params s)) cs) s of
          (child_readers, s1) \<Rightarrow>
            if IsPseudoRoot \<lparr>GetData = d, GetParent = par\<rparr> then (None, s1)
            else
              case (if length child_readers = 1
                    then merge_with_parent derives_xform (hd child_readers) s1
                    else (False, s1)) of
                (merged, s2) \<Rightarrow>
                  if merged then (Some (hd child_readers), s2)
                  else
                    case create_reader_if_allowed \<lparr>GetData = d, GetParent = par\<rparr> s2 of
                      (None, s3) \<Rightarrow> (None, s3)
                    | (Some reader, s3) \<Rightarrow>
                        (Some reader,
                         set_parents child_readers reader
                           (incref reader (push_back reader (create_object reader s3)))))"
| "collect_children derives_xform d [] s = ([], s)"
| "collect_children derives_xform d (childPrim # children) s =
     (case collect_readers_prim derives_xform (Some d) childPrim s of
        (None, s1) \<Rightarrow> collect_children derives_xform d children s1
      | (Some child_reader, s1) \<Rightarrow>
          (case collect_children derives_xform d children s1 of
             (child_readers, s2) \<Rightarrow> (child_reader # child_readers, s2)))"
  by pat_completeness auto
termination
proof (relation "measure (\<lambda>x. case x of
                    Inl (_, _, n, _) \<Rightarrow> size n
                  | Inr (_, _, ns, _) \<Rightarrow> size_list size ns)", goal_cases)
  case 1
  show ?case by simp
next
  case (2 derives_xform par d cs s)
  have "size_list size (filter P cs) \<le> size_list size cs" for P
    by (induction cs) auto
  then have "size_list size (GetFilteredChildren (import_instance_proxies (m_params s)) cs)
          \<le> size_list size cs"
    unfolding GetFilteredChildren_def .
  then show ?case by simp
next
  case 3
  then show ?case by simp
next
  case 4
  then show ?case by simp
next
  case 5
  then show ?case by simp
qed

text \<open>\<^verbatim>\<open>clear_readers()\<close>: the loop over \<^verbatim>\<open>readers_\<close>, then \<^verbatim>\<open>readers_.clear()\<close>.\<close>

fun clear_readers_loop :: "addr option list \<Rightarrow> USDStageReader \<Rightarrow> USDStageReader" where
  "clear_readers_loop [] s = s"
| "clear_readers_loop (None # rest) s = clear_readers_loop rest s"
| "clear_readers_loop (Some reader # rest) s =
     clear_readers_loop rest
       (case deref (decref reader s) reader of
          None \<Rightarrow> decref reader s
        | Some r \<Rightarrow>
            if refcount r = 0 then delete_reader reader (decref reader s)
            else decref reader s)"

definition clear_readers :: "USDStageReader \<Rightarrow> USDStageReader" where
  "clear_readers s = (clear_readers_loop (m_readers s) s)\<lparr>m_readers := []\<rparr>"

definition mask_warning :: "string \<Rightarrow> string" where
  "mask_warning path_mask =
     ''WARNING: Prim Path Mask '' @ path_mask @ '' does not specify a valid prim.'' @ [CHR 0x0A]"

text \<open>\<^verbatim>\<open>collect_readers(bmain)\<close>.\<close>

definition collect_readers :: "(reader_class \<Rightarrow> bool) \<Rightarrow> USDStageReader \<Rightarrow> USDStageReader" where
  "collect_readers derives_xform s =
     (if \<not> valid s then s
      else
        case m_stage s of
          None \<Rightarrow> s
        | Some stage \<Rightarrow>
            let s1 = clear_readers s;
                root = (None, GetPseudoRoot stage);
                (root, s2) =
                  (if prim_path_mask (m_params s1) \<noteq> [] then
                     (case GetPrimAtPath stage (prim_path_mask (m_params s1)) of
                        Some prim \<Rightarrow> (prim, s1)
                      | None \<Rightarrow>
                          (root, s1\<lparr>cerr := cerr s1 @ mask_warning (prim_path_mask (m_params s1))\<rparr>))
                   else (root, s1));
                s3 = s2\<lparr>m_stage := Some (stage\<lparr>interpolation_type := UsdInterpolationTypeHeld\<rparr>)\<rparr>
            in snd (collect_readers_prim derives_xform (fst root) (snd root) s3))"


section \<open>\<^verbatim>\<open>ED_keyframes_keylist.h\<close>\<close>

text \<open>
  The handle-type enumeration of the header, with the value C gives each enumerator: the
  first is set to 0 and each following one is one more than its predecessor.
\<close>

datatype eKeyframeHandleDrawOpts =
    KEYFRAME_HANDLE_NONE
  | KEYFRAME_HANDLE_AUTO_CLAMP
  | KEYFRAME_HANDLE_AUTO
  | KEYFRAME_HANDLE_VECTOR
  | KEYFRAME_HANDLE_ALIGNED
  | KEYFRAME_HANDLE_FREE

fun handle_enum_value :: "eKeyframeHandleDrawOpts \<Rightarrow> nat" where
  "handle_enum_value KEYFRAME_HANDLE_NONE = 0"
| "handle_enum_value KEYFRAME_HANDLE_AUTO_CLAMP = 1"
| "handle_enum_value KEYFRAME_HANDLE_AUTO = 2"
| "handle_enum_value KEYFRAME_HANDLE_VECTOR = 3"
| "handle_enum_value KEYFRAME_HANDLE_ALIGNED = 4"
| "handle_enum_value KEYFRAME_HANDLE_FREE = 5"

text \<open>
  \<^verbatim>\<open>ActKeyColumn\<close>, with the fields the queries and the handle merge read: the time,
  the handle type and the number of keys merged into the column. The list and tree
  linkage is the order of the list of columns.
\<close>

record ActKeyColumn =
  cfra :: real
  handle_type :: eKeyframeHandleDrawOpts
  totkey :: nat

type_synonym AnimKeylist = "ActKeyColumn list"

text \<open>One keyframe of a curve, as it reaches the index: its time and its handle category.\<close>

record keyframe =
  key_cfra :: real
  key_handle :: eKeyframeHandleDrawOpts

text \<open>
  Modelled from the spec: the implementation of the index (\<^verbatim>\<open>keyframes_keylist.cc\<close>)
  is absent, the header only declares it. "Higher enumerant wins when curves disagree".
\<close>

definition higher_priority ::
  "eKeyframeHandleDrawOpts \<Rightarrow> eKeyframeHandleDrawOpts \<Rightarrow> eKeyframeHandleDrawOpts" where
  "higher_priority a b = (if handle_enum_value a < handle_enum_value b then b else a)"

text \<open>
  Modelled from the spec: "for each keyframe encountered, locate or create the TimeColumn
  at its time (ties merge in place)"; columns are kept in ascending time.
\<close>

definition new_column :: "keyframe \<Rightarrow> ActKeyColumn" where
  "new_column k = \<lparr>cfra = key_cfra k, handle_type = key_handle k, totkey = 1\<rparr>"

definition merge_column :: "keyframe \<Rightarrow> ActKeyColumn \<Rightarrow> ActKeyColumn" where
  "merge_column k c =
     c\<lparr>handle_type := higher_priority (handle_type c) (key_handle k), totkey := totkey c + 1\<rparr>"

fun insert_key :: "keyframe \<Rightarrow> AnimKeylist \<Rightarrow> AnimKeylist" where
  "insert_key k [] = [new_column k]"
| "insert_key k (c # cs) =
     (if key_cfra k < cfra c then new_column k # c # cs
      else if key_cfra k = cfra c then merge_column k c # cs
      else c # insert_key k cs)"

text \<open>Modelled from the spec: a population call merges every keyframe of its source.\<close>

definition keys_to_keylist :: "keyframe list \<Rightarrow> AnimKeylist \<Rightarrow> AnimKeylist" where
  "keys_to_keylist ks keylist = foldl (\<lambda>kl k. insert_key k kl) keylist ks"

definition ED_keylist_create :: AnimKeylist where
  "ED_keylist_create = []"

text \<open>
  Modelled from the spec: the four queries of the table of public operations, over the
  time-ascending sequence of columns.
\<close>

definition ED_keylist_find_exact :: "AnimKeylist \<Rightarrow> real \<Rightarrow> ActKeyColumn option" where
  "ED_keylist_find_exact keylist t = find (\<lambda>c. cfra c = t) keylist"

definition ED_keylist_find_next :: "AnimKeylist \<Rightarrow> real \<Rightarrow> ActKeyColumn option" where
  "ED_keylist_find_next keylist t = find (\<lambda>c. t < cfra c) keylist"

definition ED_keylist_find_prev :: "AnimKeylist \<Rightarrow> real \<Rightarrow> ActKeyColumn option" where
  "ED_keylist_find_prev keylist t = find (\<lambda>c. cfra c < t) (rev keylist)"

definition ED_keylist_find_any_between ::
  "AnimKeylist \<Rightarrow> real \<Rightarrow> real \<Rightarrow> ActKeyColumn option" where
  "ED_keylist_find_any_between keylist min_fra max_fra =
     find (\<lambda>c. min_fra < cfra c \<and> cfra c < max_fra) keylist"

section \<open>Example stages and parameters\<close>

definition mk_prim :: "string \<Rightarrow> usd_schema list \<Rightarrow> prim_data" where
  "mk_prim path ss =
     \<lparr>prim_path = path, schemas = ss,
      visibility_attr = Some \<lparr>might_vary = False, attr_value = ''inherited''\<rparr>,
      purpose_attr = Some \<lparr>might_vary = False, attr_value = ''default''\<rparr>,
      xform_ops_authored = False, default_predicate = True, instance_proxy = False\<rparr>"

definition import_all :: USDImportParams where
  "import_all =
     \<lparr>import_cameras = True, import_curves = True, import_meshes = True,
      import_lights = True, import_volumes = True, import_instance_proxies = False,
      import_visible_only = True, import_guide = True, import_proxy = True,
      import_render = True, prim_path_mask = []\<rparr>"

definition stage_of :: "usd_node \<Rightarrow> UsdStage option" where
  "stage_of tree = Some \<lparr>GetPseudoRoot = tree, interpolation_type = UsdInterpolationTypeLinear\<rparr>"

text \<open>A transform prim over a single mesh prim without authored transform operations.\<close>

definition xform_mesh_stage :: usd_node where
  "xform_mesh_stage =
     Node (mk_prim ''/'' [])
       [Node (mk_prim ''/X'' [UsdGeomXform, UsdGeomImageable])
          [Node (mk_prim ''/X/M'' [UsdGeomMesh, UsdGeomImageable]) []]]"

text \<open>The same, the mesh carrying an authored transform operation.\<close>

definition xform_mesh_ops_stage :: usd_node where
  "xform_mesh_ops_stage =
     Node (mk_prim ''/'' [])
       [Node (mk_prim ''/X'' [UsdGeomXform, UsdGeomImageable])
          [Node ((mk_prim ''/X/M'' [UsdGeomMesh, UsdGeomImageable])\<lparr>xform_ops_authored := True\<rparr>) []]]"

text \<open>A prim without a type (of no schema, so not imageable) over a single mesh prim.\<close>

definition untyped_mesh_stage :: usd_node where
  "untyped_mesh_stage =
     Node (mk_prim ''/'' [])
       [Node (mk_prim ''/G'' [])
          [Node (mk_prim ''/G/M'' [UsdGeomMesh, UsdGeomImageable]) []]]"

section \<open>Notions used in the proofs\<close>

text \<open>
  The part of \<^verbatim>\<open>collect_readers(bmain, prim)\<close> after the test for the pseudo-root,
  as a function of the child readers and the state the loop left.
\<close>

definition prim_tail ::
  "(reader_class \<Rightarrow> bool) \<Rightarrow> UsdPrim \<Rightarrow> addr list \<Rightarrow> USDStageReader \<Rightarrow> addr option \<times> USDStageReader" where
  "prim_tail derives_xform p child_readers s1 =
     (case (if length child_readers = 1
            then merge_with_parent derives_xform (hd child_readers) s1
            else (False, s1)) of
        (merged, s2) \<Rightarrow>
          if merged then (Some (hd child_readers), s2)
          else
            case create_reader_if_allowed p s2 of
              (None, s3) \<Rightarrow> (None, s3)
            | (Some reader, s3) \<Rightarrow>
                (Some reader,
                 set_parents child_readers reader
                   (incref reader (push_back reader (create_object reader s3)))))"

definition grows :: "USDStageReader \<Rightarrow> USDStageReader \<Rightarrow> bool" where
  "grows s s' \<longleftrightarrow>
     m_stage s' = m_stage s \<and> m_params s' = m_params s \<and> cerr s' = cerr s \<and>
     length (heap s) \<le> length (heap s') \<and>
     (\<forall>a < length (heap s). deref s' a = deref s a) \<and>
     m_readers s' = m_readers s @ map Some [length (heap s)..<length (heap s')] \<and>
     bmain s' = bmain s @ [length (heap s)..<length (heap s')] \<and>
     (\<forall>a. length (heap s) \<le> a \<and> a < length (heap s') \<longrightarrow>
          (\<exists>rd. deref s' a = Some rd \<and> refcount rd = 1))"

definition top_reader ::
  "USDStageReader \<Rightarrow> USDStageReader \<Rightarrow> prim_data option \<Rightarrow> addr \<Rightarrow> bool" where
  "top_reader s s' par a \<longleftrightarrow>
     length (heap s) \<le> a \<and> a < length (heap s') \<and>
     (\<exists>rd. deref s' a = Some rd \<and> reader_parent rd = None \<and>
           (use_parent_xform rd \<or> GetParent (reader_prim rd) = par))"

definition merge_eligible :: "(reader_class \<Rightarrow> bool) \<Rightarrow> USDPrimReader \<Rightarrow> bool" where
  "merge_eligible derives_xform rd \<longleftrightarrow>
     derives_xform (reader_class rd) \<and> \<not> use_parent_xform rd \<and>
     IsA_opt (GetParent (reader_prim rd)) UsdGeomXform \<and>
     \<not> IsA (GetData (reader_prim rd)) UsdGeomXform \<and>
     \<not> IsA (GetData (reader_prim rd)) UsdGeomScope \<and>
     \<not> xform_ops_authored (GetData (reader_prim rd))"

text \<open>
  The reader class the spec assigns to a prim: the first enabled category in the order
  camera, basis curves, nurbs curves, mesh, light, volume; otherwise the generic
  transform reader for an imageable prim, and none for any other prim.
\<close>

fun category_enabled :: "USDImportParams \<Rightarrow> prim_data \<Rightarrow> reader_class \<Rightarrow> bool" where
  "category_enabled P d USDCameraReader = (import_cameras P \<and> IsA d UsdGeomCamera)"
| "category_enabled P d USDCurvesReader = (import_curves P \<and> IsA d UsdGeomBasisCurves)"
| "category_enabled P d USDNurbsReader = (import_curves P \<and> IsA d UsdGeomNurbsCurves)"
| "category_enabled P d USDMeshReader = (import_meshes P \<and> IsA d UsdGeomMesh)"
| "category_enabled P d USDLightReader = (import_lights P \<and> IsA d UsdLuxLight)"
| "category_enabled P d USDVolumeReader = (import_volumes P \<and> IsA d UsdVolVolume)"
| "category_enabled P d USDXformReader = False"

definition category_order :: "reader_class list" where
  "category_order =
     [USDCameraReader, USDCurvesReader, USDNurbsReader, USDMeshReader, USDLightReader,
      USDVolumeReader]"

definition reader_class_for :: "USDImportParams \<Rightarrow> prim_data \<Rightarrow> reader_class option" where
  "reader_class_for P d =
     (case find (category_enabled P d) category_order of
        Some k \<Rightarrow> Some k
      | None \<Rightarrow> if IsA d UsdGeomImageable then Some USDXformReader else None)"

text \<open>The class of the reader a call returned, read from the state the call left.\<close>

definition created_class :: "addr option \<times> USDStageReader \<Rightarrow> reader_class option" where
  "created_class res =
     (case fst res of None \<Rightarrow> None | Some a \<Rightarrow> map_option reader_class (deref (snd res) a))"

text \<open>More example prims, parameters and stages.\<close>

definition guide_off :: USDImportParams where
  "guide_off = import_all\<lparr>import_guide := False\<rparr>"

definition with_purpose :: "TfToken \<Rightarrow> prim_data \<Rightarrow> prim_data" where
  "with_purpose tok d = d\<lparr>purpose_attr := Some \<lparr>might_vary = False, attr_value = tok\<rparr>\<rparr>"

definition with_visibility :: "bool \<Rightarrow> TfToken \<Rightarrow> prim_data \<Rightarrow> prim_data" where
  "with_visibility varying tok d =
     d\<lparr>visibility_attr := Some \<lparr>might_vary = varying, attr_value = tok\<rparr>\<rparr>"

definition mesh_prim :: prim_data where
  "mesh_prim = mk_prim ''/M'' [UsdGeomMesh, UsdGeomImageable]"

text \<open>A transform prim with static visibility "invisible" over a visible mesh.\<close>

definition hidden_stage :: usd_node where
  "hidden_stage =
     Node (mk_prim ''/'' [])
       [Node (with_visibility False ''invisible'' (mk_prim ''/X'' [UsdGeomXform, UsdGeomImageable]))
          [Node (mk_prim ''/X/M'' [UsdGeomMesh, UsdGeomImageable]) []]]"

text \<open>A stage with one mesh prim under the pseudo-root.\<close>

definition single_mesh_stage :: usd_node where
  "single_mesh_stage = Node (mk_prim ''/'' []) [Node mesh_prim []]"

text \<open>
  A state with one live reader in the vector of readers, to exercise \<^verbatim>\<open>clear_readers\<close>
  on a reader that is retained elsewhere.
\<close>

definition stale_reader_state :: USDStageReader where
  "stale_reader_state =
     \<lparr>m_stage = None, m_params = import_all, m_readers = [Some 0],
      heap = [Some ((construct_reader USDMeshReader
                      \<lparr>GetData = mesh_prim, GetParent = Some (mk_prim ''/'' [])\<rparr>)
                    \<lparr>refcount := 1\<rparr>)],
      bmain = [0], cerr = []\<rparr>"

text \<open>
  The state in which \<^verbatim>\<open>collect_readers(bmain)\<close> starts the traversal: the readers
  cleared, \<open>e\<close> the contents of the error stream, the stage set to held interpolation.
\<close>

definition begin_traversal :: "UsdStage \<Rightarrow> string \<Rightarrow> USDStageReader \<Rightarrow> USDStageReader" where
  "begin_traversal stage e s =
     (clear_readers s)
       \<lparr>cerr := e, m_stage := Some (stage\<lparr>interpolation_type := UsdInterpolationTypeHeld\<rparr>)\<rparr>"

text \<open>
  The state with the path mask of its parameters and the contents of its error stream
  replaced: the traversal reads neither.
\<close>

definition relabel :: "string \<Rightarrow> string \<Rightarrow> USDStageReader \<Rightarrow> USDStageReader" where
  "relabel m e s = s\<lparr>m_params := (m_params s)\<lparr>prim_path_mask := m\<rparr>, cerr := e\<rparr>"

text \<open>Parameters with a path mask that names the mesh, and with one that names no prim.\<close>

definition masked_mesh_params :: USDImportParams where
  "masked_mesh_params = import_all\<lparr>prim_path_mask := ''/X/M''\<rparr>"

definition bad_mask_params :: USDImportParams where
  "bad_mask_params = import_all\<lparr>prim_path_mask := ''/Nowhere''\<rparr>"

text \<open>The prims under the pseudo-root of the three example stages, as nodes.\<close>

definition xform_node :: usd_node where
  "xform_node =
     Node (mk_prim ''/X'' [UsdGeomXform, UsdGeomImageable])
       [Node (mk_prim ''/X/M'' [UsdGeomMesh, UsdGeomImageable]) []]"

definition xform_ops_node :: usd_node where
  "xform_ops_node =
     Node (mk_prim ''/X'' [UsdGeomXform, UsdGeomImageable])
       [Node ((mk_prim ''/X/M'' [UsdGeomMesh, UsdGeomImageable])\<lparr>xform_ops_authored := True\<rparr>) []]"

definition untyped_node :: usd_node where
  "untyped_node =
     Node (mk_prim ''/G'' [])
       [Node (mk_prim ''/G/M'' [UsdGeomMesh, UsdGeomImageable]) []]"

text \<open>A stage reader just constructed, with every import option on.\<close>

definition fresh_reader :: USDStageReader where
  "fresh_reader = construct_stage_reader (stage_of (Node (mk_prim ''/'' []) [])) import_all"

text \<open>The columns are in strictly ascending time.\<close>

definition ascending :: "AnimKeylist \<Rightarrow> bool" where
  "ascending kl = sorted_wrt (\<lambda>a b. cfra a < cfra b) kl"

text \<open>
  A keyframe at a time, and the index populated with keyframes at 5, 1, 10 and 5 again:
  three columns.
\<close>

definition key_at :: "real \<Rightarrow> keyframe" where
  "key_at t = \<lparr>key_cfra = t, key_handle = KEYFRAME_HANDLE_NONE\<rparr>"

definition three_columns :: AnimKeylist where
  "three_columns = keys_to_keylist [key_at 5, key_at 1, key_at 10, key_at 5] ED_keylist_create"

text \<open>Two curves with a keyframe at the same time, one marking AUTO, the other VECTOR.\<close>

definition auto_then_vector :: "keyframe list" where
  "auto_then_vector =
     [\<lparr>key_cfra = 3, key_handle = KEYFRAME_HANDLE_AUTO\<rparr>,
      \<lparr>key_cfra = 3, key_handle = KEYFRAME_HANDLE_VECTOR\<rparr>]"

text \<open>
  \<open>visits derives_xform parP nP sP par n s\<close>: the call of
  \<^verbatim>\<open>collect_readers(bmain, prim)\<close> for the prim \<open>nP\<close> with parent \<open>parP\<close> in the state
  \<open>sP\<close> is the call for \<open>n\<close> with parent \<open>par\<close> in the state \<open>s\<close>, or is made, directly
  or through further recursive calls, while that call runs its loop over the children:
  the prim passes the filters, and the child \<open>c\<close> is reached in the state the loop over
  the children before it left.
\<close>

inductive visits ::
  "(reader_class \<Rightarrow> bool) \<Rightarrow> prim_data option \<Rightarrow> usd_node \<Rightarrow> USDStageReader
     \<Rightarrow> prim_data option \<Rightarrow> usd_node \<Rightarrow> USDStageReader \<Rightarrow> bool"
  for derives_xform :: "reader_class \<Rightarrow> bool"
    and parP :: "prim_data option" and nP :: usd_node and sP :: USDStageReader
where
  visits_here: "visits derives_xform parP nP sP parP nP sP"
| visits_child:
    "\<not> (IsA d UsdGeomImageable \<and> \<not> include_by_purpose (m_params s) d) \<Longrightarrow>
     \<not> (IsA d UsdGeomImageable \<and> \<not> include_by_visibility (m_params s) d) \<Longrightarrow>
     GetFilteredChildren (import_instance_proxies (m_params s)) cs = before @ c # after \<Longrightarrow>
     visits derives_xform parP nP sP (Some d) c (snd (collect_children derives_xform d before s)) \<Longrightarrow>
     visits derives_xform parP nP sP par (Node d cs) s"

text \<open>
  A transform prim over a prim without a type, which holds a mesh, and over two more
  meshes.
\<close>

definition orphan_stage :: usd_node where
  "orphan_stage =
     Node (mk_prim ''/'' [])
       [Node (mk_prim ''/A'' [UsdGeomXform, UsdGeomImageable])
          [Node (mk_prim ''/A/G'' [])
             [Node (mk_prim ''/A/G/M'' [UsdGeomMesh, UsdGeomImageable]) []],
           Node (mk_prim ''/A/M2'' [UsdGeomMesh, UsdGeomImageable]) [],
           Node (mk_prim ''/A/M3'' [UsdGeomMesh, UsdGeomImageable]) []]]"

section \<open>The traversal: what it changes\<close>

lemma collect_readers_prim_unfold:
  "collect_readers_prim xf par (Node d cs) s =
     (if IsA d UsdGeomImageable \<and> \<not> include_by_purpose (m_params s) d then (None, s)
      else if IsA d UsdGeomImageable \<and> \<not> include_by_visibility (m_params s) d then (None, s)
      else
        case collect_children xf d (GetFilteredChildren (import_instance_proxies (m_params s)) cs) s of
          (child_readers, s1) \<Rightarrow>
            if par = None then (None, s1)
            else prim_tail xf \<lparr>GetData = d, GetParent = par\<rparr> child_readers s1)"
  by (cases "collect_children xf d (GetFilteredChildren (import_instance_proxies (m_params s)) cs) s")
     (simp add: prim_tail_def IsPseudoRoot_def)

declare collect_readers_prim.simps [simp del]

text \<open>The definitions a concrete traversal is evaluated with.\<close>

lemmas eval_defs =
  collect_readers_def valid_def clear_readers_def construct_stage_reader_def stage_of_def
  collect_readers_prim_unfold prim_tail_def GetFilteredChildren_def filter_predicate_def
  GetPrimAtPath_def IsA_def IsA_opt_def include_by_purpose_def include_by_visibility_def
  merge_with_parent_def create_reader_if_allowed_def new_reader_def construct_reader_def
  update_reader_def deref_def incref_def decref_def delete_reader_def push_back_def
  create_object_def set_parent_def mk_prim_def import_all_def
  UsdGeomTokens_invisible_def UsdGeomTokens_guide_def UsdGeomTokens_proxy_def
  UsdGeomTokens_render_def

lemma update_reader_fields [simp]:
  "m_stage (update_reader a f s) = m_stage s"
  "m_params (update_reader a f s) = m_params s"
  "m_readers (update_reader a f s) = m_readers s"
  "bmain (update_reader a f s) = bmain s"
  "cerr (update_reader a f s) = cerr s"
  "length (heap (update_reader a f s)) = length (heap s)"
  by (simp_all add: update_reader_def split: option.split)

lemma deref_update_reader [simp]:
  "deref (update_reader a f s) b = (if b = a then map_option f (deref s a) else deref s b)"
  by (auto simp: update_reader_def deref_def split: option.split)

lemma new_reader_fields [simp]:
  "fst (new_reader k p s) = length (heap s)"
  "m_stage (snd (new_reader k p s)) = m_stage s"
  "m_params (snd (new_reader k p s)) = m_params s"
  "m_readers (snd (new_reader k p s)) = m_readers s"
  "bmain (snd (new_reader k p s)) = bmain s"
  "cerr (snd (new_reader k p s)) = cerr s"
  "length (heap (snd (new_reader k p s))) = Suc (length (heap s))"
  by (simp_all add: new_reader_def)

lemma deref_new_reader [simp]:
  "deref (snd (new_reader k p s)) b =
     (if b = length (heap s) then Some (construct_reader k p) else deref s b)"
  by (auto simp: new_reader_def deref_def nth_append)

lemma create_object_fields [simp]:
  "m_stage (create_object a s) = m_stage s"
  "m_params (create_object a s) = m_params s"
  "m_readers (create_object a s) = m_readers s"
  "bmain (create_object a s) = bmain s @ [a]"
  "cerr (create_object a s) = cerr s"
  "heap (create_object a s) = heap s"
  "deref (create_object a s) b = deref s b"
  by (simp_all add: create_object_def deref_def)

lemma push_back_fields [simp]:
  "m_stage (push_back a s) = m_stage s"
  "m_params (push_back a s) = m_params s"
  "m_readers (push_back a s) = m_readers s @ [Some a]"
  "bmain (push_back a s) = bmain s"
  "cerr (push_back a s) = cerr s"
  "heap (push_back a s) = heap s"
  "deref (push_back a s) b = deref s b"
  by (simp_all add: push_back_def deref_def)

lemma set_parents_fields [simp]:
  "m_stage (set_parents cs r s) = m_stage s"
  "m_params (set_parents cs r s) = m_params s"
  "m_readers (set_parents cs r s) = m_readers s"
  "bmain (set_parents cs r s) = bmain s"
  "cerr (set_parents cs r s) = cerr s"
  "length (heap (set_parents cs r s)) = length (heap s)"
  by (induction cs arbitrary: s; simp add: set_parent_def)+

lemma deref_set_parents:
  "deref (set_parents cs r s) b =
     (if b \<in> set cs then map_option (\<lambda>rd. rd\<lparr>reader_parent := Some r\<rparr>) (deref s b) else deref s b)"
proof (induction cs arbitrary: s)
  case Nil
  then show ?case by simp
next
  case (Cons c cs)
  show ?case
    by (cases "deref s b") (auto simp: Cons.IH set_parent_def)
qed

lemma grows_refl: "grows s s"
  by (auto simp: grows_def)

lemma grows_trans:
  assumes "grows s s1" and "grows s1 s2"
  shows "grows s s2"
proof -
  have len: "length (heap s) \<le> length (heap s1)" "length (heap s1) \<le> length (heap s2)"
    using assms by (simp_all add: grows_def)
  have upt: "[length (heap s)..<length (heap s2)]
               = [length (heap s)..<length (heap s1)] @ [length (heap s1)..<length (heap s2)]"
    using len by (metis le_Suc_ex upt_add_eq_append)
  have fresh: "\<exists>rd. deref s2 a = Some rd \<and> refcount rd = 1"
    if "length (heap s) \<le> a" "a < length (heap s2)" for a
  proof (cases "a < length (heap s1)")
    case True
    then have "deref s2 a = deref s1 a" using assms(2) by (simp add: grows_def)
    moreover have "\<exists>rd. deref s1 a = Some rd \<and> refcount rd = 1"
      using assms(1) that(1) True by (simp add: grows_def)
    ultimately show ?thesis by simp
  next
    case False
    then show ?thesis using assms(2) that(2) by (simp add: grows_def)
  qed
  have frame: "deref s2 a = deref s a" if "a < length (heap s)" for a
  proof -
    have "deref s2 a = deref s1 a" using assms(2) that len by (simp add: grows_def)
    also have "\<dots> = deref s a" using assms(1) that by (simp add: grows_def)
    finally show ?thesis .
  qed
  show ?thesis
    unfolding grows_def
    using assms len upt fresh frame by (simp add: grows_def)
qed

lemma incref_fields [simp]:
  "m_stage (incref a s) = m_stage s"
  "m_params (incref a s) = m_params s"
  "m_readers (incref a s) = m_readers s"
  "bmain (incref a s) = bmain s"
  "cerr (incref a s) = cerr s"
  "length (heap (incref a s)) = length (heap s)"
  "deref (incref a s) b =
     (if b = a then map_option (\<lambda>r. r\<lparr>refcount := refcount r + 1\<rparr>) (deref s a) else deref s b)"
  by (simp_all add: incref_def)

lemma merge_with_parent_cases:
  assumes "merge_with_parent xf a s = (b, s')"
  shows "(\<not> b \<and> s' = s) \<or>
         (b \<and> s' = update_reader a (\<lambda>r. r\<lparr>use_parent_xform := True\<rparr>) s)"
  using assms by (auto simp: merge_with_parent_def split: option.splits if_splits)

lemma merge_with_parent_iff:
  assumes "deref s a = Some rd"
  shows "fst (merge_with_parent xf a s) \<longleftrightarrow> merge_eligible xf rd"
  using assms by (auto simp: merge_with_parent_def merge_eligible_def)

lemma create_reader_if_allowed_cases:
  assumes "create_reader_if_allowed p s = (r, s')"
  shows "(r = None \<and> s' = s) \<or>
         (\<exists>k. r = Some (length (heap s)) \<and> s' = snd (new_reader k p s))"
  using assms
  by (auto simp: create_reader_if_allowed_def new_reader_def split: if_splits)

lemma top_reader_grows:
  assumes "top_reader s s1 par a" and "grows s1 s2"
  shows "top_reader s s2 par a"
  using assms by (auto simp: top_reader_def grows_def)

lemma top_reader_later:
  assumes "top_reader s1 s2 par a" and "grows s s1"
  shows "top_reader s s2 par a"
  using assms by (auto simp: top_reader_def grows_def)

lemma grows_flag:
  assumes "grows s s1" and "length (heap s) \<le> c"
  shows "grows s (update_reader c (\<lambda>r. r\<lparr>use_parent_xform := True\<rparr>) s1)"
  using assms by (auto simp: grows_def)

lemma grows_register:
  assumes g: "grows s s1" and cs: "\<forall>c\<in>set crs. length (heap s) \<le> c \<and> c < length (heap s1)"
  shows "grows s (set_parents crs (length (heap s1))
                   (incref (length (heap s1)) (push_back (length (heap s1))
                     (create_object (length (heap s1)) (snd (new_reader k p s1))))))"
    (is "grows s ?s'")
proof -
  let ?n = "length (heap s1)"
  have len: "length (heap s) \<le> ?n" using g by (simp add: grows_def)
  have d: "deref ?s' b =
            (if b = ?n then Some ((construct_reader k p)\<lparr>refcount := 1\<rparr>)
             else if b \<in> set crs then map_option (\<lambda>rd. rd\<lparr>reader_parent := Some ?n\<rparr>) (deref s1 b)
             else deref s1 b)" for b
    using cs by (auto simp: deref_set_parents construct_reader_def)
  have upt: "[length (heap s)..<Suc ?n] = [length (heap s)..<?n] @ [?n]"
    using len by simp
  have fresh: "\<exists>rd. deref ?s' a = Some rd \<and> refcount rd = 1"
    if lo: "length (heap s) \<le> a" and hi: "a < Suc ?n" for a
  proof (cases "a = ?n")
    case True
    then show ?thesis by (simp add: d)
  next
    case False
    then have "a < ?n" using hi by simp
    moreover from g have "\<forall>a. length (heap s) \<le> a \<and> a < ?n \<longrightarrow>
          (\<exists>rd. deref s1 a = Some rd \<and> refcount rd = 1)"
      by (simp add: grows_def)
    ultimately obtain rd where "deref s1 a = Some rd" "refcount rd = 1"
      using lo by blast
    then show ?thesis using False by (auto simp: d)
  qed
  have frame: "deref ?s' a = deref s a" if "a < length (heap s)" for a
  proof -
    have "a \<noteq> ?n" "a \<notin> set crs" using that len cs by auto
    then have "deref ?s' a = deref s1 a" by (simp add: d)
    then show ?thesis using g that by (simp add: grows_def)
  qed
  show ?thesis
    unfolding grows_def
    using g upt fresh frame len by (simp add: grows_def)
qed

lemma prim_tail_inv:
  assumes g: "grows s s1"
    and cs: "\<forall>a\<in>set crs. top_reader s s1 (Some d) a"
    and t: "prim_tail xf \<lparr>GetData = d, GetParent = par\<rparr> crs s1 = (r, s')"
  shows "grows s s' \<and> (\<forall>a. r = Some a \<longrightarrow> top_reader s s' par a)"
proof -
  obtain merged s2 where m:
    "(if length crs = 1 then merge_with_parent xf (hd crs) s1 else (False, s1)) = (merged, s2)"
    by (cases "if length crs = 1 then merge_with_parent xf (hd crs) s1 else (False, s1)")
  show ?thesis
  proof (cases merged)
    case True
    then have one: "length crs = 1" and mw: "merge_with_parent xf (hd crs) s1 = (True, s2)"
      using m by (auto split: if_splits)
    then obtain c where crs: "crs = [c]" by (cases crs) auto
    have s2: "s2 = update_reader c (\<lambda>r. r\<lparr>use_parent_xform := True\<rparr>) s1"
      using merge_with_parent_cases [OF mw] crs by simp
    have res: "r = Some c" "s' = s2"
      using t m True crs by (simp_all add: prim_tail_def)
    have tc: "top_reader s s1 (Some d) c" using cs crs by simp
    then have "grows s s2" using g s2 by (simp add: grows_flag top_reader_def)
    moreover have "top_reader s s2 par c"
      using tc by (auto simp: top_reader_def s2)
    ultimately show ?thesis using res by simp
  next
    case False
    have s2: "s2 = s1"
      using m False merge_with_parent_cases [of xf "hd crs" s1 merged s2]
      by (auto split: if_splits)
    obtain r3 s3 where c: "create_reader_if_allowed \<lparr>GetData = d, GetParent = par\<rparr> s1 = (r3, s3)"
      by (cases "create_reader_if_allowed \<lparr>GetData = d, GetParent = par\<rparr> s1")
    from create_reader_if_allowed_cases [OF c]
    show ?thesis
    proof
      assume "r3 = None \<and> s3 = s1"
      then have "r = None" "s' = s1"
        using t m False s2 c by (simp_all add: prim_tail_def)
      then show ?thesis using g by simp
    next
      assume "\<exists>k. r3 = Some (length (heap s1)) \<and> s3 = snd (new_reader k \<lparr>GetData = d, GetParent = par\<rparr> s1)"
      then obtain k where r3: "r3 = Some (length (heap s1))"
        and s3: "s3 = snd (new_reader k \<lparr>GetData = d, GetParent = par\<rparr> s1)" by blast
      let ?n = "length (heap s1)"
      have res: "r = Some ?n"
        "s' = set_parents crs ?n (incref ?n (push_back ?n (create_object ?n s3)))"
        using t m False s2 c r3 by (simp_all add: prim_tail_def)
      have rng: "\<forall>c\<in>set crs. length (heap s) \<le> c \<and> c < length (heap s1)"
        using cs by (simp add: top_reader_def)
      have gr: "grows s s'"
        unfolding res s3 using g rng by (rule grows_register)
      have "?n \<notin> set crs" using rng by auto
      then have "deref s' ?n = Some ((construct_reader k \<lparr>GetData = d, GetParent = par\<rparr>)\<lparr>refcount := 1\<rparr>)"
        by (simp add: res s3 deref_set_parents construct_reader_def)
      moreover have "length (heap s) \<le> ?n" using g by (simp add: grows_def)
      ultimately have "top_reader s s' par ?n"
        by (simp add: top_reader_def construct_reader_def res s3)
      then show ?thesis using gr res by simp
    qed
  qed
qed

lemma traversal_inv:
  "collect_readers_prim xf par n s = (r, s') \<Longrightarrow>
     grows s s' \<and> (\<forall>a. r = Some a \<longrightarrow> top_reader s s' par a)"
  "collect_children xf d ns s = (rs, s') \<Longrightarrow>
     grows s s' \<and> (\<forall>a\<in>set rs. top_reader s s' (Some d) a)"
proof (induction xf par n s and xf d ns s arbitrary: r s' and rs s'
       rule: collect_readers_prim_collect_children.induct)
  case (1 xf par d cs s)
  show ?case
  proof (cases "(IsA d UsdGeomImageable \<and> \<not> include_by_purpose (m_params s) d) \<or>
                (IsA d UsdGeomImageable \<and> \<not> include_by_visibility (m_params s) d)")
    case True
    then have "r = None" "s' = s"
      using "1.prems" by (auto simp: collect_readers_prim_unfold split: if_splits)
    then show ?thesis by (simp add: grows_refl)
  next
    case False
    obtain crs s1 where ch: "collect_children xf d
        (GetFilteredChildren (import_instance_proxies (m_params s)) cs) s = (crs, s1)"
      by (cases "collect_children xf d
        (GetFilteredChildren (import_instance_proxies (m_params s)) cs) s")
    have ih: "grows s s1 \<and> (\<forall>a\<in>set crs. top_reader s s1 (Some d) a)"
      using "1.IH" [OF _ _ ch] False by blast
    show ?thesis
    proof (cases par)
      case None
      then have "r = None" "s' = s1"
        using "1.prems" False ch by (auto simp: collect_readers_prim_unfold)
      then show ?thesis using ih by simp
    next
      case (Some pd)
      then have "prim_tail xf \<lparr>GetData = d, GetParent = par\<rparr> crs s1 = (r, s')"
        using "1.prems" False ch by (auto simp: collect_readers_prim_unfold)
      then show ?thesis using ih prim_tail_inv by blast
    qed
  qed
next
  case (2 xf d s)
  then show ?case by (simp add: grows_refl)
next
  case (3 xf d c cs s)
  obtain r1 s1 where c1: "collect_readers_prim xf (Some d) c s = (r1, s1)"
    by (cases "collect_readers_prim xf (Some d) c s")
  have ih1: "grows s s1 \<and> (\<forall>a. r1 = Some a \<longrightarrow> top_reader s s1 (Some d) a)"
    using "3.IH"(1) [OF c1] .
  obtain rs2 s2 where c2: "collect_children xf d cs s1 = (rs2, s2)"
    by (cases "collect_children xf d cs s1")
  show ?case
  proof (cases r1)
    case None
    have ih2: "grows s1 s2 \<and> (\<forall>a\<in>set rs2. top_reader s1 s2 (Some d) a)"
      using "3.IH"(2) [OF c1 [symmetric] None c2] .
    have "rs = rs2" "s' = s2" using "3.prems" c1 c2 None by simp_all
    then show ?thesis using ih1 ih2 grows_trans top_reader_later by blast
  next
    case (Some a1)
    have ih2: "grows s1 s2 \<and> (\<forall>a\<in>set rs2. top_reader s1 s2 (Some d) a)"
      using "3.IH"(3) [OF c1 [symmetric] Some c2] .
    have res: "rs = a1 # rs2" "s' = s2" using "3.prems" c1 c2 Some by simp_all
    have "top_reader s s2 (Some d) a1"
      using ih1 ih2 Some top_reader_grows by blast
    then show ?thesis using res ih1 ih2 grows_trans top_reader_later by auto
  qed
qed

section \<open>The filters\<close>

text \<open>
  Claim C4. For every imageable prim, the purpose filter admits the prim when the three
  purpose options (guide, proxy, render) are all enabled; it admits a prim without a
  purpose attribute; a prim whose purpose is the guide, proxy or render token is admitted
  exactly when the option of that purpose is enabled; a prim with any other purpose value
  is admitted.
\<close>

theorem include_by_purpose_spec:
  "(import_guide p \<and> import_proxy p \<and> import_render p \<longrightarrow> include_by_purpose p d) \<and>
   (purpose_attr d = None \<longrightarrow> include_by_purpose p d) \<and>
   (\<forall>a. purpose_attr d = Some a \<longrightarrow>
      (attr_value a = UsdGeomTokens_guide \<longrightarrow> include_by_purpose p d = import_guide p) \<and>
      (attr_value a = UsdGeomTokens_proxy \<longrightarrow> include_by_purpose p d = import_proxy p) \<and>
      (attr_value a = UsdGeomTokens_render \<longrightarrow> include_by_purpose p d = import_render p) \<and>
      (attr_value a \<noteq> UsdGeomTokens_guide \<and> attr_value a \<noteq> UsdGeomTokens_proxy
         \<and> attr_value a \<noteq> UsdGeomTokens_render \<longrightarrow> include_by_purpose p d))"
  by (auto simp: include_by_purpose_def UsdGeomTokens_guide_def UsdGeomTokens_proxy_def
        UsdGeomTokens_render_def)

theorem include_by_purpose_spec_witness:
  "\<not> include_by_purpose guide_off (with_purpose ''guide'' mesh_prim) \<and>
   include_by_purpose guide_off (with_purpose ''render'' mesh_prim) \<and>
   include_by_purpose guide_off (with_purpose ''proxy'' mesh_prim) \<and>
   include_by_purpose guide_off (with_purpose ''default'' mesh_prim) \<and>
   include_by_purpose guide_off (mesh_prim\<lparr>purpose_attr := None\<rparr>) \<and>
   include_by_purpose import_all (with_purpose ''guide'' mesh_prim)"
  using include_by_purpose_spec [of guide_off "with_purpose ''guide'' mesh_prim"]
    include_by_purpose_spec [of guide_off "with_purpose ''render'' mesh_prim"]
    include_by_purpose_spec [of guide_off "with_purpose ''proxy'' mesh_prim"]
    include_by_purpose_spec [of guide_off "with_purpose ''default'' mesh_prim"]
    include_by_purpose_spec [of guide_off "mesh_prim\<lparr>purpose_attr := None\<rparr>"]
    include_by_purpose_spec [of import_all "with_purpose ''guide'' mesh_prim"]
  by (simp add: guide_off_def import_all_def with_purpose_def mesh_prim_def mk_prim_def
        UsdGeomTokens_guide_def UsdGeomTokens_proxy_def UsdGeomTokens_render_def)

text \<open>
  Claim C3. The visibility filter admits every prim when "visible only" is off. When it is
  on, a prim without a visibility attribute is admitted, a prim whose visibility might
  vary over time is admitted, and otherwise the prim is admitted exactly when its static
  visibility is not the "invisible" token. An imageable prim the filter rejects makes the
  traversal return no reader and leave the state as it was: nothing is created for the
  prim or for any prim below it.
\<close>

theorem include_by_visibility_spec:
  "(\<not> import_visible_only (m_params s) \<longrightarrow> include_by_visibility (m_params s) d) \<and>
   (import_visible_only (m_params s) \<and> visibility_attr d = None
      \<longrightarrow> include_by_visibility (m_params s) d) \<and>
   (\<forall>a. import_visible_only (m_params s) \<and> visibility_attr d = Some a \<longrightarrow>
      (might_vary a \<longrightarrow> include_by_visibility (m_params s) d) \<and>
      (\<not> might_vary a \<longrightarrow>
         include_by_visibility (m_params s) d = (attr_value a \<noteq> UsdGeomTokens_invisible))) \<and>
   (IsA d UsdGeomImageable \<and> \<not> include_by_visibility (m_params s) d \<longrightarrow>
      collect_readers_prim derives_xform par (Node d cs) s = (None, s))"
  by (auto simp: include_by_visibility_def collect_readers_prim_unfold)

theorem include_by_visibility_spec_witness:
  "include_by_visibility (import_all\<lparr>import_visible_only := False\<rparr>)
      (with_visibility False ''invisible'' mesh_prim) \<and>
   include_by_visibility import_all (mesh_prim\<lparr>visibility_attr := None\<rparr>) \<and>
   include_by_visibility import_all (with_visibility True ''invisible'' mesh_prim) \<and>
   include_by_visibility import_all (with_visibility False ''inherited'' mesh_prim) \<and>
   \<not> include_by_visibility import_all (with_visibility False ''invisible'' mesh_prim) \<and>
   collect_readers_prim (\<lambda>k. True) (Some (mk_prim ''/'' []))
      (Node (with_visibility False ''invisible'' (mk_prim ''/X'' [UsdGeomXform, UsdGeomImageable]))
          [Node (mk_prim ''/X/M'' [UsdGeomMesh, UsdGeomImageable]) []])
      (construct_stage_reader (stage_of hidden_stage) import_all)
     = (None, construct_stage_reader (stage_of hidden_stage) import_all) \<and>
   m_readers (collect_readers (\<lambda>k. True)
      (construct_stage_reader (stage_of hidden_stage) import_all)) = []"
proof -
  let ?s = "construct_stage_reader (stage_of hidden_stage) import_all"
  let ?off = "construct_stage_reader (stage_of hidden_stage) (import_all\<lparr>import_visible_only := False\<rparr>)"
  have p: "m_params ?s = import_all" "m_params ?off = import_all\<lparr>import_visible_only := False\<rparr>"
    by (simp_all add: construct_stage_reader_def)
  have sub: "collect_readers_prim (\<lambda>k. True) (Some (mk_prim ''/'' []))
      (Node (with_visibility False ''invisible'' (mk_prim ''/X'' [UsdGeomXform, UsdGeomImageable]))
          [Node (mk_prim ''/X/M'' [UsdGeomMesh, UsdGeomImageable]) []]) ?s = (None, ?s)"
    using include_by_visibility_spec [of ?s
        "with_visibility False ''invisible'' (mk_prim ''/X'' [UsdGeomXform, UsdGeomImageable])"
        "\<lambda>k. True" "Some (mk_prim ''/'' [])" "[Node (mk_prim ''/X/M'' [UsdGeomMesh, UsdGeomImageable]) []]"]
    by (simp add: construct_stage_reader_def import_all_def with_visibility_def mk_prim_def IsA_def
          UsdGeomTokens_invisible_def)
  have "m_readers (collect_readers (\<lambda>k. True) ?s) = []"
    by (simp add: collect_readers_def construct_stage_reader_def stage_of_def hidden_stage_def
          valid_def clear_readers_def import_all_def collect_readers_prim_unfold
          GetFilteredChildren_def filter_predicate_def mk_prim_def with_visibility_def
          IsA_def include_by_purpose_def include_by_visibility_def
          UsdGeomTokens_invisible_def)
  moreover note sub
  moreover have "include_by_visibility (import_all\<lparr>import_visible_only := False\<rparr>)
      (with_visibility False ''invisible'' mesh_prim) \<and>
   include_by_visibility import_all (mesh_prim\<lparr>visibility_attr := None\<rparr>) \<and>
   include_by_visibility import_all (with_visibility True ''invisible'' mesh_prim) \<and>
   include_by_visibility import_all (with_visibility False ''inherited'' mesh_prim) \<and>
   \<not> include_by_visibility import_all (with_visibility False ''invisible'' mesh_prim)"
    using include_by_visibility_spec [of ?off "with_visibility False ''invisible'' mesh_prim"]
      include_by_visibility_spec [of ?s "mesh_prim\<lparr>visibility_attr := None\<rparr>"]
      include_by_visibility_spec [of ?s "with_visibility True ''invisible'' mesh_prim"]
      include_by_visibility_spec [of ?s "with_visibility False ''inherited'' mesh_prim"]
      include_by_visibility_spec [of ?s "with_visibility False ''invisible'' mesh_prim"]
    by (simp add: construct_stage_reader_def import_all_def with_visibility_def mesh_prim_def mk_prim_def
          UsdGeomTokens_invisible_def)
  ultimately show ?thesis by blast
qed

section \<open>Reader creation\<close>

lemma created_class_create:
  "created_class (create_reader_if_allowed p s) = reader_class_for (m_params s) (GetData p)"
  by (simp add: created_class_def create_reader_if_allowed_def reader_class_for_def
        category_order_def new_reader_def deref_def construct_reader_def)

lemma create_none_iff:
  "fst (create_reader_if_allowed p s) = None \<longleftrightarrow> reader_class_for (m_params s) (GetData p) = None"
  by (simp add: create_reader_if_allowed_def reader_class_for_def
        category_order_def new_reader_def)

lemma reader_class_for_specific:
  "(\<exists>k. reader_class_for P d = Some k \<and> k \<noteq> USDXformReader)
     \<longleftrightarrow> (\<exists>k\<in>set category_order. category_enabled P d k)"
  by (auto simp: reader_class_for_def category_order_def)

lemma reader_class_for_generic:
  "reader_class_for P d = Some USDXformReader
     \<longleftrightarrow> (\<forall>k\<in>set category_order. \<not> category_enabled P d k) \<and> IsA d UsdGeomImageable"
  by (auto simp: reader_class_for_def category_order_def)

lemma reader_class_for_none:
  "reader_class_for P d = None
     \<longleftrightarrow> (\<forall>k\<in>set category_order. \<not> category_enabled P d k) \<and> \<not> IsA d UsdGeomImageable"
  by (auto simp: reader_class_for_def category_order_def)

lemma created_class_prim_tail:
  assumes g: "grows s s1"
    and cs: "\<forall>a\<in>set crs. top_reader s s1 (Some d) a"
    and nm: "\<not> (length crs = 1 \<and> fst (merge_with_parent xf (hd crs) s1))"
  shows "created_class (prim_tail xf p crs s1) = reader_class_for (m_params s1) (GetData p)"
proof -
  have m: "(if length crs = 1 then merge_with_parent xf (hd crs) s1 else (False, s1)) = (False, s1)"
    using nm merge_with_parent_cases [of xf "hd crs" s1]
    by (cases "merge_with_parent xf (hd crs) s1") auto
  obtain r3 s3 where c: "create_reader_if_allowed p s1 = (r3, s3)"
    by (cases "create_reader_if_allowed p s1")
  have cc: "created_class (r3, s3) = reader_class_for (m_params s1) (GetData p)"
    using created_class_create [of p s1] c by simp
  from create_reader_if_allowed_cases [OF c]
  show ?thesis
  proof
    assume "r3 = None \<and> s3 = s1"
    then show ?thesis using m c cc by (simp add: prim_tail_def)
  next
    assume "\<exists>k. r3 = Some (length (heap s1)) \<and> s3 = snd (new_reader k p s1)"
    then obtain k where r3: "r3 = Some (length (heap s1))"
      and s3: "s3 = snd (new_reader k p s1)" by blast
    have "length (heap s1) \<notin> set crs" using cs by (auto simp: top_reader_def)
    then have "created_class (prim_tail xf p crs s1) = Some k"
      using m c r3 s3
      by (simp add: prim_tail_def created_class_def deref_set_parents construct_reader_def)
    moreover have "created_class (r3, s3) = Some k"
      by (simp add: r3 s3 created_class_def construct_reader_def)
    ultimately show ?thesis using cc by simp
  qed
qed

text \<open>
  Claim C6, amended. For every prim reached by the traversal that is not the pseudo-root,
  passes the purpose and visibility filters and is not merged into its single child
  reader, the reader created is the one \<^verbatim>\<open>create_reader_if_allowed\<close> makes: of the
  class of the first enabled category the prim belongs to, the categories tested in the
  order camera, basis curves, nurbs curves, mesh, light, volume; when no category applies
  an imageable prim gets the generic transform reader (also a prim of a known type whose
  category is disabled) and any other prim gets no reader.

  The counterexamples are prims the traversal reaches for which no reader is created
  although a class applies: the transform prim that is merged into its single mesh (the
  only reader is the one of the mesh), and a mesh with static visibility "invisible"
  under the "visible only" option.
\<close>

theorem create_reader_if_allowed_spec:
  "created_class (create_reader_if_allowed p s) = reader_class_for (m_params s) (GetData p) \<and>
   (fst (create_reader_if_allowed p s) = None
      \<longleftrightarrow> reader_class_for (m_params s) (GetData p) = None) \<and>
   ((\<exists>k. reader_class_for P d = Some k \<and> k \<noteq> USDXformReader)
      \<longleftrightarrow> (\<exists>k\<in>set category_order. category_enabled P d k)) \<and>
   (reader_class_for P d = Some USDXformReader
      \<longleftrightarrow> (\<forall>k\<in>set category_order. \<not> category_enabled P d k) \<and> IsA d UsdGeomImageable) \<and>
   (reader_class_for P d = None
      \<longleftrightarrow> (\<forall>k\<in>set category_order. \<not> category_enabled P d k) \<and> \<not> IsA d UsdGeomImageable) \<and>
   (par \<noteq> None \<and>
    \<not> (IsA d' UsdGeomImageable \<and> \<not> include_by_purpose (m_params s) d') \<and>
    \<not> (IsA d' UsdGeomImageable \<and> \<not> include_by_visibility (m_params s) d') \<and>
    collect_children xf d' (GetFilteredChildren (import_instance_proxies (m_params s)) cs) s
      = (crs, s1) \<and>
    \<not> (length crs = 1 \<and> fst (merge_with_parent xf (hd crs) s1))
    \<longrightarrow> created_class (collect_readers_prim xf par (Node d' cs) s)
          = reader_class_for (m_params s) d')"
proof -
  have "created_class (collect_readers_prim xf par (Node d' cs) s)
          = reader_class_for (m_params s) d'"
    if "par \<noteq> None"
      and "\<not> (IsA d' UsdGeomImageable \<and> \<not> include_by_purpose (m_params s) d')"
      and "\<not> (IsA d' UsdGeomImageable \<and> \<not> include_by_visibility (m_params s) d')"
      and ch: "collect_children xf d' (GetFilteredChildren (import_instance_proxies (m_params s)) cs) s
      = (crs, s1)"
      and nm: "\<not> (length crs = 1 \<and> fst (merge_with_parent xf (hd crs) s1))"
  proof -
    have inv: "grows s s1" "\<forall>a\<in>set crs. top_reader s s1 (Some d') a"
      using traversal_inv(2) [OF ch] by simp_all
    have "collect_readers_prim xf par (Node d' cs) s
            = prim_tail xf \<lparr>GetData = d', GetParent = par\<rparr> crs s1"
      using that by (auto simp: collect_readers_prim_unfold)
    moreover have "m_params s1 = m_params s" using inv(1) by (simp add: grows_def)
    ultimately show ?thesis
      using created_class_prim_tail [OF inv nm, of "\<lparr>GetData = d', GetParent = par\<rparr>"] by simp
  qed
  then show ?thesis
    using created_class_create create_none_iff reader_class_for_specific
      reader_class_for_generic reader_class_for_none by blast
qed

theorem create_reader_if_allowed_spec_witness:
  "created_class (create_reader_if_allowed
      \<lparr>GetData = mesh_prim, GetParent = Some (mk_prim ''/'' [])\<rparr>
      (construct_stage_reader (stage_of single_mesh_stage) import_all)) = Some USDMeshReader \<and>
   reader_class_for (import_all\<lparr>import_meshes := False\<rparr>) mesh_prim = Some USDXformReader \<and>
   reader_class_for import_all (mk_prim ''/G'' []) = None \<and>
   created_class (collect_readers_prim (\<lambda>k. True) (Some (mk_prim ''/'' [])) (Node mesh_prim [])
      (construct_stage_reader (stage_of single_mesh_stage) import_all)) = Some USDMeshReader"
proof -
  let ?s = "construct_stage_reader (stage_of single_mesh_stage) import_all"
  have a: "reader_class_for import_all mesh_prim = Some USDMeshReader"
    by (simp add: reader_class_for_def category_order_def import_all_def mesh_prim_def
          mk_prim_def IsA_def)
  have b: "reader_class_for (import_all\<lparr>import_meshes := False\<rparr>) mesh_prim = Some USDXformReader"
    using create_reader_if_allowed_spec
      [where P = "import_all\<lparr>import_meshes := False\<rparr>" and d = mesh_prim]
    by (simp add: category_order_def import_all_def mesh_prim_def mk_prim_def IsA_def)
  have c: "reader_class_for import_all (mk_prim ''/G'' []) = None"
    using create_reader_if_allowed_spec [where P = import_all and d = "mk_prim ''/G'' []"]
    by (simp add: category_order_def import_all_def mk_prim_def IsA_def)
  have p: "m_params ?s = import_all" by (simp add: construct_stage_reader_def)
  have ch: "collect_children (\<lambda>k. True) mesh_prim
              (GetFilteredChildren (import_instance_proxies (m_params ?s)) []) ?s = ([], ?s)"
    by (simp add: GetFilteredChildren_def)
  have f: "include_by_purpose import_all mesh_prim" "include_by_visibility import_all mesh_prim"
    by (simp_all add: include_by_purpose_def include_by_visibility_def import_all_def
          mesh_prim_def mk_prim_def UsdGeomTokens_invisible_def)
  have d: "created_class (collect_readers_prim (\<lambda>k. True) (Some (mk_prim ''/'' []))
             (Node mesh_prim []) ?s) = reader_class_for (m_params ?s) mesh_prim"
    using create_reader_if_allowed_spec
      [where par = "Some (mk_prim ''/'' [])" and d' = mesh_prim and s = ?s and xf = "\<lambda>k. True"
         and cs = "[]" and crs = "[]" and ?s1.0 = ?s] ch f
    by (simp add: p)
  have e: "created_class (create_reader_if_allowed
      \<lparr>GetData = mesh_prim, GetParent = Some (mk_prim ''/'' [])\<rparr> ?s)
        = reader_class_for (m_params ?s) mesh_prim"
    using create_reader_if_allowed_spec
      [where p = "\<lparr>GetData = mesh_prim, GetParent = Some (mk_prim ''/'' [])\<rparr>" and s = ?s]
    by simp
  show ?thesis using a b c d e by (simp add: p)
qed

theorem create_reader_if_allowed_spec_counterexample:
  "IsA (mk_prim ''/X'' [UsdGeomXform, UsdGeomImageable]) UsdGeomImageable \<and>
   reader_class_for (m_params fresh_reader) (mk_prim ''/X'' [UsdGeomXform, UsdGeomImageable])
     = Some USDXformReader \<and>
   fst (collect_readers_prim (\<lambda>k. True) (Some (mk_prim ''/'' [])) xform_node fresh_reader)
     = Some 0 \<and>
   map (map_option (\<lambda>r. (prim_path (GetData (reader_prim r)), reader_class r)))
     (heap (snd (collect_readers_prim (\<lambda>k. True) (Some (mk_prim ''/'' [])) xform_node fresh_reader)))
     = [Some (''/X/M'', USDMeshReader)] \<and>
   reader_class_for (m_params fresh_reader) (with_visibility False ''invisible'' mesh_prim)
     = Some USDMeshReader \<and>
   collect_readers_prim (\<lambda>k. True) (Some (mk_prim ''/'' []))
       (Node (with_visibility False ''invisible'' mesh_prim) []) fresh_reader
     = (None, fresh_reader)"
  by (simp add: eval_defs reader_class_for_def category_order_def fresh_reader_def
        xform_node_def with_visibility_def mesh_prim_def)

section \<open>\<^verbatim>\<open>collect_readers(bmain)\<close> and \<^verbatim>\<open>clear_readers()\<close>\<close>

lemma decref_fields [simp]:
  "m_stage (decref a s) = m_stage s"
  "m_params (decref a s) = m_params s"
  "m_readers (decref a s) = m_readers s"
  "bmain (decref a s) = bmain s"
  "cerr (decref a s) = cerr s"
  "length (heap (decref a s)) = length (heap s)"
  "deref (decref a s) b =
     (if b = a then map_option (\<lambda>r. r\<lparr>refcount := refcount r - 1\<rparr>) (deref s a) else deref s b)"
  by (simp_all add: decref_def)

lemma delete_reader_fields [simp]:
  "m_stage (delete_reader a s) = m_stage s"
  "m_params (delete_reader a s) = m_params s"
  "m_readers (delete_reader a s) = m_readers s"
  "bmain (delete_reader a s) = bmain s"
  "cerr (delete_reader a s) = cerr s"
  "length (heap (delete_reader a s)) = length (heap s)"
  "deref (delete_reader a s) b = (if b = a then None else deref s b)"
  by (auto simp: delete_reader_def deref_def)

lemma clear_readers_loop_fields [simp]:
  "m_stage (clear_readers_loop rs s) = m_stage s"
  "m_params (clear_readers_loop rs s) = m_params s"
  "m_readers (clear_readers_loop rs s) = m_readers s"
  "bmain (clear_readers_loop rs s) = bmain s"
  "cerr (clear_readers_loop rs s) = cerr s"
  "length (heap (clear_readers_loop rs s)) = length (heap s)"
  by (induction rs s rule: clear_readers_loop.induct; simp split: option.split)+

lemma clear_readers_fields [simp]:
  "m_stage (clear_readers s) = m_stage s"
  "m_params (clear_readers s) = m_params s"
  "m_readers (clear_readers s) = []"
  "bmain (clear_readers s) = bmain s"
  "cerr (clear_readers s) = cerr s"
  "length (heap (clear_readers s)) = length (heap s)"
  by (simp_all add: clear_readers_def)


lemma begin_traversal_fields [simp]:
  "m_stage (begin_traversal stage e s)
     = Some (stage\<lparr>interpolation_type := UsdInterpolationTypeHeld\<rparr>)"
  "m_params (begin_traversal stage e s) = m_params s"
  "m_readers (begin_traversal stage e s) = []"
  "bmain (begin_traversal stage e s) = bmain s"
  "cerr (begin_traversal stage e s) = e"
  "heap (begin_traversal stage e s) = heap (clear_readers s)"
  by (simp_all add: begin_traversal_def)

lemma begin_traversal_same_cerr:
  "(clear_readers s)\<lparr>m_stage := Some (stage\<lparr>interpolation_type := UsdInterpolationTypeHeld\<rparr>)\<rparr>
     = begin_traversal stage (cerr s) s"
  by (rule USDStageReader.equality) (simp_all add: begin_traversal_def)

lemma collect_readers_no_mask:
  assumes "m_stage s = Some stage" and "prim_path_mask (m_params s) = []"
  shows "collect_readers xf s
           = snd (collect_readers_prim xf None (GetPseudoRoot stage)
                   (begin_traversal stage (cerr s) s))"
  using assms
  by (simp add: collect_readers_def valid_def begin_traversal_same_cerr)

lemma collect_readers_mask_found:
  assumes "m_stage s = Some stage" and "prim_path_mask (m_params s) \<noteq> []"
    and "GetPrimAtPath stage (prim_path_mask (m_params s)) = Some (par, n)"
  shows "collect_readers xf s
           = snd (collect_readers_prim xf par n (begin_traversal stage (cerr s) s))"
  using assms
  by (simp add: collect_readers_def valid_def begin_traversal_same_cerr)

lemma collect_readers_mask_missing:
  assumes "m_stage s = Some stage" and "prim_path_mask (m_params s) \<noteq> []"
    and "GetPrimAtPath stage (prim_path_mask (m_params s)) = None"
  shows "collect_readers xf s
           = snd (collect_readers_prim xf None (GetPseudoRoot stage)
                   (begin_traversal stage
                      (cerr s @ mask_warning (prim_path_mask (m_params s))) s))"
  using assms by (simp add: collect_readers_def valid_def begin_traversal_def)

lemma collect_readers_traversal:
  assumes "m_stage s = Some stage"
  shows "\<exists>par n e. collect_readers xf s
           = snd (collect_readers_prim xf par n (begin_traversal stage e s))"
proof (cases "prim_path_mask (m_params s) = []")
  case True
  then show ?thesis using collect_readers_no_mask [OF assms True] by blast
next
  case False
  show ?thesis
  proof (cases "GetPrimAtPath stage (prim_path_mask (m_params s))")
    case None
    then show ?thesis using collect_readers_mask_missing [OF assms False] by blast
  next
    case (Some pn)
    then show ?thesis using collect_readers_mask_found [OF assms False, of "fst pn" "snd pn"]
      by (metis prod.collapse)
  qed
qed

lemma traversal_grows:
  "grows s (snd (collect_readers_prim xf par n s))"
  using traversal_inv(1) [of xf par n s] by (cases "collect_readers_prim xf par n s") simp






section \<open>The path mask\<close>

lemma relabel_fields [simp]:
  "m_stage (relabel m e s) = m_stage s"
  "m_params (relabel m e s) = (m_params s)\<lparr>prim_path_mask := m\<rparr>"
  "m_readers (relabel m e s) = m_readers s"
  "bmain (relabel m e s) = bmain s"
  "cerr (relabel m e s) = e"
  "heap (relabel m e s) = heap s"
  "deref (relabel m e s) a = deref s a"
  by (simp_all add: relabel_def deref_def)

lemma filters_ignore_mask [simp]:
  "include_by_purpose (P\<lparr>prim_path_mask := m\<rparr>) d = include_by_purpose P d"
  "include_by_visibility (P\<lparr>prim_path_mask := m\<rparr>) d = include_by_visibility P d"
  by (simp_all add: include_by_purpose_def include_by_visibility_def split: option.split)

lemma relabel_update_reader:
  "update_reader a f (relabel m e s) = relabel m e (update_reader a f s)"
  by (simp add: update_reader_def relabel_def deref_def split: option.split)

lemma relabel_set_parents:
  "set_parents cs r (relabel m e s) = relabel m e (set_parents cs r s)"
  by (induction cs arbitrary: s) (simp_all add: set_parent_def relabel_update_reader)

lemma relabel_create_object:
  "create_object a (relabel m e s) = relabel m e (create_object a s)"
  by (rule USDStageReader.equality) (simp_all add: relabel_def create_object_def)

lemma relabel_push_back:
  "push_back a (relabel m e s) = relabel m e (push_back a s)"
  by (rule USDStageReader.equality) (simp_all add: relabel_def push_back_def)

lemma relabel_register:
  "incref a (push_back a (create_object a (relabel m e s)))
     = relabel m e (incref a (push_back a (create_object a s)))"
  by (simp add: incref_def relabel_update_reader relabel_create_object relabel_push_back)

lemma relabel_merge:
  "merge_with_parent xf a (relabel m e s)
     = (fst (merge_with_parent xf a s), relabel m e (snd (merge_with_parent xf a s)))"
  by (simp add: merge_with_parent_def relabel_update_reader split: option.split)

lemma relabel_create:
  "create_reader_if_allowed p (relabel m e s)
     = (fst (create_reader_if_allowed p s), relabel m e (snd (create_reader_if_allowed p s)))"
  by (simp add: create_reader_if_allowed_def new_reader_def relabel_def)

lemma relabel_prim_tail:
  "prim_tail xf p crs (relabel m e s)
     = (fst (prim_tail xf p crs s), relabel m e (snd (prim_tail xf p crs s)))"
proof -
  obtain b s2 where mw: "merge_with_parent xf (hd crs) s = (b, s2)"
    by (cases "merge_with_parent xf (hd crs) s")
  obtain r3 s3 where cr: "create_reader_if_allowed p s = (r3, s3)"
    by (cases "create_reader_if_allowed p s")
  have s2: "\<not> b \<Longrightarrow> s2 = s" using merge_with_parent_cases [OF mw] by auto
  show ?thesis
    by (cases b; cases r3)
       (auto simp: prim_tail_def relabel_merge relabel_create mw cr s2
          relabel_set_parents relabel_register)
qed

lemma relabel_traversal:
  "collect_readers_prim xf par n (relabel m e s)
     = (fst (collect_readers_prim xf par n s), relabel m e (snd (collect_readers_prim xf par n s)))"
  "collect_children xf d ns (relabel m e s)
     = (fst (collect_children xf d ns s), relabel m e (snd (collect_children xf d ns s)))"
proof (induction xf par n s and xf d ns s
       rule: collect_readers_prim_collect_children.induct)
  case (1 xf par d cs s)
  show ?case
  proof (cases "(IsA d UsdGeomImageable \<and> \<not> include_by_purpose (m_params s) d) \<or>
                (IsA d UsdGeomImageable \<and> \<not> include_by_visibility (m_params s) d)")
    case True
    then show ?thesis by (auto simp: collect_readers_prim_unfold)
  next
    case False
    obtain crs s1 where ch: "collect_children xf d
        (GetFilteredChildren (import_instance_proxies (m_params s)) cs) s = (crs, s1)"
      by (cases "collect_children xf d
        (GetFilteredChildren (import_instance_proxies (m_params s)) cs) s")
    have "collect_children xf d
        (GetFilteredChildren (import_instance_proxies (m_params s)) cs) (relabel m e s)
          = (crs, relabel m e s1)"
      using "1.IH" [OF _ _] False ch by auto
    then show ?thesis using False ch
      by (auto simp: collect_readers_prim_unfold relabel_prim_tail)
  qed
next
  case (2 xf d s)
  then show ?case by simp
next
  case (3 xf d c cs s)
  obtain r1 s1 where c1: "collect_readers_prim xf (Some d) c s = (r1, s1)"
    by (cases "collect_readers_prim xf (Some d) c s")
  have c1': "collect_readers_prim xf (Some d) c (relabel m e s) = (r1, relabel m e s1)"
    using "3.IH"(1) c1 by simp
  obtain rs2 s2 where c2: "collect_children xf d cs s1 = (rs2, s2)"
    by (cases "collect_children xf d cs s1")
  show ?case
  proof (cases r1)
    case None
    have "collect_children xf d cs (relabel m e s1) = (rs2, relabel m e s2)"
      using "3.IH"(2) [OF c1 [symmetric] None] c2 by simp
    then show ?thesis using c1 c1' c2 None by simp
  next
    case (Some a1)
    have "collect_children xf d cs (relabel m e s1) = (rs2, relabel m e s2)"
      using "3.IH"(3) [OF c1 [symmetric] Some] c2 by simp
    then show ?thesis using c1 c1' c2 Some by simp
  qed
qed

lemma relabel_decref: "decref a (relabel m e s) = relabel m e (decref a s)"
  by (simp add: decref_def relabel_update_reader)

lemma relabel_delete: "delete_reader a (relabel m e s) = relabel m e (delete_reader a s)"
  by (simp add: delete_reader_def relabel_def)

lemma relabel_clear_loop:
  "clear_readers_loop rs (relabel m e s) = relabel m e (clear_readers_loop rs s)"
proof (induction rs arbitrary: s)
  case Nil
  show ?case by simp
next
  case (Cons r rs)
  show ?case
  proof (cases r)
    case None
    then show ?thesis using Cons.IH by simp
  next
    case (Some a)
    define t where "t = (case deref (decref a s) a of
          None \<Rightarrow> decref a s
        | Some r \<Rightarrow>
            if refcount r = 0 then delete_reader a (decref a s)
            else decref a s)"
    have "(case deref (decref a (relabel m e s)) a of
          None \<Rightarrow> decref a (relabel m e s)
        | Some r \<Rightarrow>
            if refcount r = 0 then delete_reader a (decref a (relabel m e s))
            else decref a (relabel m e s)) = relabel m e t"
      unfolding t_def relabel_decref
      by (cases "deref (decref a s) a") (simp_all only: relabel_fields relabel_delete option.case if_distrib [of "relabel m e"] split: if_splits)
    then have "clear_readers_loop (r # rs) (relabel m e s) = clear_readers_loop rs (relabel m e t)"
      unfolding Some by (simp only: clear_readers_loop.simps)
    moreover have "clear_readers_loop (r # rs) s = clear_readers_loop rs t"
      unfolding Some t_def by (simp only: clear_readers_loop.simps)
    ultimately show ?thesis using Cons.IH by simp
  qed
qed

lemma relabel_clear_readers:
  "clear_readers (relabel m e s) = relabel m e (clear_readers s)"
  by (rule USDStageReader.equality) (simp_all add: clear_readers_def relabel_clear_loop)

lemma relabel_begin_traversal:
  "begin_traversal stage e (s\<lparr>m_params := (m_params s)\<lparr>prim_path_mask := m\<rparr>\<rparr>)
     = relabel m e (begin_traversal stage e s)"
proof -
  have "s\<lparr>m_params := (m_params s)\<lparr>prim_path_mask := m\<rparr>\<rparr> = relabel m (cerr s) s"
    by (simp add: relabel_def)
  then have "begin_traversal stage e (s\<lparr>m_params := (m_params s)\<lparr>prim_path_mask := m\<rparr>\<rparr>)
          = begin_traversal stage e (relabel m (cerr s) s)" by (rule arg_cong)
  also have "\<dots> = relabel m e (begin_traversal stage e s)"
    by (rule USDStageReader.equality)
       (simp_all add: begin_traversal_def relabel_clear_readers)
  finally show ?thesis .
qed

lemma path_mask_root_aux:
  assumes "m_stage s = Some stage"
  shows
  "(prim_path_mask (m_params s) = [] \<longrightarrow>
      collect_readers xf s
        = snd (collect_readers_prim xf None (GetPseudoRoot stage)
                (begin_traversal stage (cerr s) s))) \<and>
   (\<forall>par n. prim_path_mask (m_params s) \<noteq> [] \<and>
       GetPrimAtPath stage (prim_path_mask (m_params s)) = Some (par, n) \<longrightarrow>
      collect_readers xf s
        = snd (collect_readers_prim xf par n (begin_traversal stage (cerr s) s)) \<and>
      cerr (collect_readers xf s) = cerr s) \<and>
   (prim_path_mask (m_params s) \<noteq> [] \<and>
       GetPrimAtPath stage (prim_path_mask (m_params s)) = None \<longrightarrow>
      collect_readers xf s
        = relabel (prim_path_mask (m_params s))
            (cerr s @ mask_warning (prim_path_mask (m_params s)))
            (collect_readers xf (s\<lparr>m_params := (m_params s)\<lparr>prim_path_mask := []\<rparr>\<rparr>)) \<and>
      m_readers (collect_readers xf s)
        = m_readers (collect_readers xf (s\<lparr>m_params := (m_params s)\<lparr>prim_path_mask := []\<rparr>\<rparr>)) \<and>
      heap (collect_readers xf s)
        = heap (collect_readers xf (s\<lparr>m_params := (m_params s)\<lparr>prim_path_mask := []\<rparr>\<rparr>)) \<and>
      bmain (collect_readers xf s)
        = bmain (collect_readers xf (s\<lparr>m_params := (m_params s)\<lparr>prim_path_mask := []\<rparr>\<rparr>)) \<and>
      cerr (collect_readers xf s)
        = cerr (collect_readers xf (s\<lparr>m_params := (m_params s)\<lparr>prim_path_mask := []\<rparr>\<rparr>))
            @ mask_warning (prim_path_mask (m_params s)))"
proof (intro conjI allI impI)
  assume "prim_path_mask (m_params s) = []"
  then show "collect_readers xf s
        = snd (collect_readers_prim xf None (GetPseudoRoot stage)
                (begin_traversal stage (cerr s) s))"
    using assms by (rule collect_readers_no_mask [rotated])
next
  fix par n
  assume a: "prim_path_mask (m_params s) \<noteq> [] \<and>
       GetPrimAtPath stage (prim_path_mask (m_params s)) = Some (par, n)"
  then show c: "collect_readers xf s
        = snd (collect_readers_prim xf par n (begin_traversal stage (cerr s) s))"
    using assms collect_readers_mask_found by blast
  show "cerr (collect_readers xf s) = cerr s"
    using traversal_grows [of "begin_traversal stage (cerr s) s" xf par n] c
    by (simp add: grows_def)
next
  assume a: "prim_path_mask (m_params s) \<noteq> [] \<and>
       GetPrimAtPath stage (prim_path_mask (m_params s)) = None"
  let ?m = "prim_path_mask (m_params s)"
  let ?s0 = "s\<lparr>m_params := (m_params s)\<lparr>prim_path_mask := []\<rparr>\<rparr>"
  let ?u = "collect_readers xf ?s0"
  let ?e = "cerr s @ mask_warning ?m"
  have u: "?u = snd (collect_readers_prim xf None (GetPseudoRoot stage)
                (begin_traversal stage (cerr s) ?s0))"
    using collect_readers_no_mask [of ?s0 stage xf] assms by simp
  have b0: "begin_traversal stage (cerr s) ?s0 = relabel [] (cerr s) (begin_traversal stage (cerr s) s)"
    by (rule relabel_begin_traversal)
  have ps: "(m_params s)\<lparr>prim_path_mask := ?m\<rparr> = m_params s" by simp
  have "begin_traversal stage ?e s
          = relabel ?m ?e (relabel [] (cerr s) (begin_traversal stage (cerr s) s))"
    by (rule USDStageReader.equality) (simp_all add: begin_traversal_def relabel_def)
  then have b1: "begin_traversal stage ?e s = relabel ?m ?e (begin_traversal stage (cerr s) ?s0)"
    by (simp only: b0)
  have "collect_readers xf s
          = snd (collect_readers_prim xf None (GetPseudoRoot stage) (begin_traversal stage ?e s))"
    using collect_readers_mask_missing [of s stage xf] assms a by simp
  also have "\<dots> = relabel ?m ?e ?u"
    by (simp add: b1 relabel_traversal(1) u)
  finally show eq: "collect_readers xf s = relabel ?m ?e ?u" .
  have "cerr ?u = cerr s"
    using traversal_grows [of "begin_traversal stage (cerr s) ?s0" xf None "GetPseudoRoot stage"] u
    by (simp add: grows_def)
  then show "m_readers (collect_readers xf s) = m_readers ?u"
    "heap (collect_readers xf s) = heap ?u"
    "bmain (collect_readers xf s) = bmain ?u"
    "cerr (collect_readers xf s) = cerr ?u @ mask_warning ?m"
    by (simp_all add: eq)
qed

text \<open>
  Claim C7. Without a path mask the traversal starts at the pseudo-root. With a non-empty
  path mask it starts at the prim at that path when there is one, and nothing is written
  to the error stream. When the mask names no prim, the line
  \<^verbatim>\<open>WARNING: Prim Path Mask <mask> does not specify a valid prim.\<close> is written to the
  error stream, the traversal starts at the pseudo-root, and the result is the one of the
  same stage reader with an empty mask: the same readers at the same addresses, the same
  vector of readers and the same host objects; only the mask kept in the parameters and
  the warning differ.
\<close>

theorem path_mask_root:
  assumes "m_stage s = Some stage"
  shows
  "(prim_path_mask (m_params s) = [] \<longrightarrow>
      collect_readers xf s
        = snd (collect_readers_prim xf None (GetPseudoRoot stage)
                (begin_traversal stage (cerr s) s))) \<and>
   (\<forall>par n. prim_path_mask (m_params s) \<noteq> [] \<and>
       GetPrimAtPath stage (prim_path_mask (m_params s)) = Some (par, n) \<longrightarrow>
      collect_readers xf s
        = snd (collect_readers_prim xf par n (begin_traversal stage (cerr s) s)) \<and>
      cerr (collect_readers xf s) = cerr s) \<and>
   (prim_path_mask (m_params s) \<noteq> [] \<and>
       GetPrimAtPath stage (prim_path_mask (m_params s)) = None \<longrightarrow>
      collect_readers xf s
        = relabel (prim_path_mask (m_params s))
            (cerr s @ (''WARNING: Prim Path Mask '' @ prim_path_mask (m_params s) @
               '' does not specify a valid prim.'' @ [CHR 0x0A]))
            (collect_readers xf (s\<lparr>m_params := (m_params s)\<lparr>prim_path_mask := []\<rparr>\<rparr>)) \<and>
      m_readers (collect_readers xf s)
        = m_readers (collect_readers xf (s\<lparr>m_params := (m_params s)\<lparr>prim_path_mask := []\<rparr>\<rparr>)) \<and>
      heap (collect_readers xf s)
        = heap (collect_readers xf (s\<lparr>m_params := (m_params s)\<lparr>prim_path_mask := []\<rparr>\<rparr>)) \<and>
      bmain (collect_readers xf s)
        = bmain (collect_readers xf (s\<lparr>m_params := (m_params s)\<lparr>prim_path_mask := []\<rparr>\<rparr>)) \<and>
      cerr (collect_readers xf s)
        = cerr (collect_readers xf (s\<lparr>m_params := (m_params s)\<lparr>prim_path_mask := []\<rparr>\<rparr>))
            @ (''WARNING: Prim Path Mask '' @ prim_path_mask (m_params s) @
               '' does not specify a valid prim.'' @ [CHR 0x0A]))"
  using path_mask_root_aux [OF assms, of xf, unfolded mask_warning_def] .

theorem path_mask_root_witness:
  "GetPrimAtPath \<lparr>GetPseudoRoot = xform_mesh_stage, interpolation_type = UsdInterpolationTypeLinear\<rparr>
       ''/Nowhere'' = None \<and>
   m_readers (collect_readers (\<lambda>k. True)
       (construct_stage_reader (stage_of xform_mesh_stage) bad_mask_params))
     = m_readers (collect_readers (\<lambda>k. True)
         (construct_stage_reader (stage_of xform_mesh_stage) import_all)) \<and>
   heap (collect_readers (\<lambda>k. True)
       (construct_stage_reader (stage_of xform_mesh_stage) bad_mask_params))
     = heap (collect_readers (\<lambda>k. True)
         (construct_stage_reader (stage_of xform_mesh_stage) import_all)) \<and>
   cerr (collect_readers (\<lambda>k. True)
       (construct_stage_reader (stage_of xform_mesh_stage) bad_mask_params))
     = ''WARNING: Prim Path Mask /Nowhere does not specify a valid prim.'' @ [CHR 0x0A] \<and>
   collect_readers (\<lambda>k. True)
       (construct_stage_reader (stage_of xform_mesh_stage) masked_mesh_params)
     = snd (collect_readers_prim (\<lambda>k. True)
         (Some (mk_prim ''/X'' [UsdGeomXform, UsdGeomImageable]))
         (Node (mk_prim ''/X/M'' [UsdGeomMesh, UsdGeomImageable]) [])
         (begin_traversal
            \<lparr>GetPseudoRoot = xform_mesh_stage, interpolation_type = UsdInterpolationTypeLinear\<rparr>
            [] (construct_stage_reader (stage_of xform_mesh_stage) masked_mesh_params)))"
proof -
  let ?stage = "\<lparr>GetPseudoRoot = xform_mesh_stage, interpolation_type = UsdInterpolationTypeLinear\<rparr>"
  let ?bad = "construct_stage_reader (stage_of xform_mesh_stage) bad_mask_params"
  let ?all = "construct_stage_reader (stage_of xform_mesh_stage) import_all"
  let ?msk = "construct_stage_reader (stage_of xform_mesh_stage) masked_mesh_params"
  have st: "m_stage ?bad = Some ?stage" "m_stage ?msk = Some ?stage"
    by (simp_all add: construct_stage_reader_def stage_of_def)
  have m: "prim_path_mask (m_params ?bad) = ''/Nowhere''"
    "prim_path_mask (m_params ?msk) = ''/X/M''"
    "cerr ?bad = []" "cerr ?msk = []"
    by (simp_all add: construct_stage_reader_def bad_mask_params_def masked_mesh_params_def)
  have l1: "GetPrimAtPath ?stage ''/Nowhere'' = None"
    by (simp add: GetPrimAtPath_def xform_mesh_stage_def mk_prim_def)
  have l2: "GetPrimAtPath ?stage ''/X/M''
      = Some (Some (mk_prim ''/X'' [UsdGeomXform, UsdGeomImageable]),
              Node (mk_prim ''/X/M'' [UsdGeomMesh, UsdGeomImageable]) [])"
    by (simp add: GetPrimAtPath_def xform_mesh_stage_def mk_prim_def)
  have z: "?bad\<lparr>m_params := (m_params ?bad)\<lparr>prim_path_mask := []\<rparr>\<rparr> = ?all"
    by (simp add: construct_stage_reader_def bad_mask_params_def import_all_def)
  have c0: "cerr (collect_readers (\<lambda>k. True) ?all) = []"
    by (simp add: eval_defs xform_mesh_stage_def)
  show ?thesis
    using path_mask_root [OF st(1), of "\<lambda>k. True"] path_mask_root [OF st(2), of "\<lambda>k. True"]
      l1 l2 c0
    by (simp add: m z)
qed

section \<open>Merging a transform into its single child\<close>

lemma merge_with_parent_eligible:
  assumes "deref s a = Some rd"
  shows "merge_with_parent xf a s =
           (if merge_eligible xf rd
            then (True, update_reader a (\<lambda>r. r\<lparr>use_parent_xform := True\<rparr>) s)
            else (False, s))"
  using assms by (auto simp: merge_with_parent_def merge_eligible_def)

lemma create_reader_class:
  assumes "reader_class_for (m_params s) (GetData p) = Some k"
  shows "create_reader_if_allowed p s = (Some (length (heap s)), snd (new_reader k p s))"
proof -
  obtain r3 s3 where c: "create_reader_if_allowed p s = (r3, s3)"
    by (cases "create_reader_if_allowed p s")
  have cc: "created_class (r3, s3) = Some k"
    using created_class_create [of p s] c assms by simp
  from create_reader_if_allowed_cases [OF c] show ?thesis
  proof
    assume "r3 = None \<and> s3 = s"
    then show ?thesis using cc by (simp add: created_class_def)
  next
    assume "\<exists>k. r3 = Some (length (heap s)) \<and> s3 = snd (new_reader k p s)"
    then obtain k' where k: "r3 = Some (length (heap s))" "s3 = snd (new_reader k' p s)"
      by blast
    then have "k' = k" using cc by (simp add: created_class_def construct_reader_def)
    then show ?thesis using c k by simp
  qed
qed

lemma create_reader_none:
  assumes "reader_class_for (m_params s) (GetData p) = None"
  shows "create_reader_if_allowed p s = (None, s)"
proof -
  obtain r3 s3 where c: "create_reader_if_allowed p s = (r3, s3)"
    by (cases "create_reader_if_allowed p s")
  have "r3 = None" using create_none_iff [of p s] c assms by simp
  then show ?thesis using create_reader_if_allowed_cases [OF c] c by auto
qed

text \<open>
  Claim C1, amended. Let the recursion over the children of a prim that is not the
  pseudo-root and passes the filters produce exactly one child reader. The reader is
  live and has no parent yet. The prim's transform is merged into it if and only if the
  child reader derives from the Xform reader, is not flagged as using its parent's
  transform, the parent of its prim is an Xform prim, its prim is neither an Xform nor a
  Scope prim, and its prim has no authored transform operations. On success the prim at
  hand is an Xform prim, no reader is created for it (the vector of readers and the heap
  keep their length), the child reader is flagged and is the reader returned. If a
  condition fails, the child reader stays as it is; the prim at hand gets a reader of its
  own exactly when reader creation admits it (the class of \<open>reader_class_for\<close>, which an
  imageable prim always has): that reader is registered with count 1 and an object, is
  returned, and becomes the parent of the child reader. A prim for which no reader is
  created returns nothing and leaves the state as the loop left it.

  The counterexample is a prim without a type over a single mesh: the conditions fail,
  and the prim produces no reader, so the mesh reader gets no parent.
\<close>

theorem merge_single_child:
  assumes root: "par \<noteq> None"
    and purpose: "\<not> (IsA d UsdGeomImageable \<and> \<not> include_by_purpose (m_params s) d)"
    and visible: "\<not> (IsA d UsdGeomImageable \<and> \<not> include_by_visibility (m_params s) d)"
    and children: "collect_children xf d
        (GetFilteredChildren (import_instance_proxies (m_params s)) cs) s = ([c], s1)"
  shows "\<exists>rc. deref s1 c = Some rc \<and> reader_parent rc = None \<and>
     (fst (merge_with_parent xf c s1) \<longleftrightarrow> merge_eligible xf rc) \<and>
     (merge_eligible xf rc \<longrightarrow>
        IsA d UsdGeomXform \<and>
        collect_readers_prim xf par (Node d cs) s
          = (Some c, update_reader c (\<lambda>r. r\<lparr>use_parent_xform := True\<rparr>) s1) \<and>
        deref (snd (collect_readers_prim xf par (Node d cs) s)) c
          = Some (rc\<lparr>use_parent_xform := True\<rparr>) \<and>
        m_readers (snd (collect_readers_prim xf par (Node d cs) s)) = m_readers s1 \<and>
        length (heap (snd (collect_readers_prim xf par (Node d cs) s))) = length (heap s1)) \<and>
     (\<not> merge_eligible xf rc \<longrightarrow>
        (reader_class_for (m_params s) d = None \<longrightarrow>
           collect_readers_prim xf par (Node d cs) s = (None, s1)) \<and>
        (\<forall>k. reader_class_for (m_params s) d = Some k \<longrightarrow>
           fst (collect_readers_prim xf par (Node d cs) s) = Some (length (heap s1)) \<and>
           m_readers (snd (collect_readers_prim xf par (Node d cs) s))
             = m_readers s1 @ [Some (length (heap s1))] \<and>
           bmain (snd (collect_readers_prim xf par (Node d cs) s))
             = bmain s1 @ [length (heap s1)] \<and>
           deref (snd (collect_readers_prim xf par (Node d cs) s)) (length (heap s1))
             = Some ((construct_reader k \<lparr>GetData = d, GetParent = par\<rparr>)\<lparr>refcount := 1\<rparr>) \<and>
           deref (snd (collect_readers_prim xf par (Node d cs) s)) c
             = Some (rc\<lparr>reader_parent := Some (length (heap s1))\<rparr>)))"
proof -
  let ?p = "\<lparr>GetData = d, GetParent = par\<rparr>"
  have inv: "grows s s1" "top_reader s s1 (Some d) c"
    using traversal_inv(2) [OF children] by simp_all
  then obtain rc where rc: "deref s1 c = Some rc" "reader_parent rc = None"
    "use_parent_xform rc \<or> GetParent (reader_prim rc) = Some d"
    and lt: "c < length (heap s1)"
    by (auto simp: top_reader_def)
  have ps: "m_params s1 = m_params s" using inv(1) by (simp add: grows_def)
  have unf: "collect_readers_prim xf par (Node d cs) s = prim_tail xf ?p [c] s1"
    using root purpose visible children by (auto simp: collect_readers_prim_unfold)
  have mw: "merge_with_parent xf c s1 =
           (if merge_eligible xf rc
            then (True, update_reader c (\<lambda>r. r\<lparr>use_parent_xform := True\<rparr>) s1)
            else (False, s1))"
    using rc(1) by (rule merge_with_parent_eligible)
  have a: "fst (merge_with_parent xf c s1) \<longleftrightarrow> merge_eligible xf rc"
    by (simp add: mw)
  have b: "IsA d UsdGeomXform \<and>
        collect_readers_prim xf par (Node d cs) s
          = (Some c, update_reader c (\<lambda>r. r\<lparr>use_parent_xform := True\<rparr>) s1) \<and>
        deref (snd (collect_readers_prim xf par (Node d cs) s)) c
          = Some (rc\<lparr>use_parent_xform := True\<rparr>) \<and>
        m_readers (snd (collect_readers_prim xf par (Node d cs) s)) = m_readers s1 \<and>
        length (heap (snd (collect_readers_prim xf par (Node d cs) s))) = length (heap s1)"
    if e: "merge_eligible xf rc"
  proof -
    have "GetParent (reader_prim rc) = Some d"
      using rc(3) e by (auto simp: merge_eligible_def)
    then have "IsA d UsdGeomXform" using e by (simp add: merge_eligible_def IsA_opt_def)
    moreover have "collect_readers_prim xf par (Node d cs) s
          = (Some c, update_reader c (\<lambda>r. r\<lparr>use_parent_xform := True\<rparr>) s1)"
      using e by (simp add: unf prim_tail_def mw)
    ultimately show ?thesis using rc(1) by simp
  qed
  have c1: "collect_readers_prim xf par (Node d cs) s = (None, s1)"
    if "\<not> merge_eligible xf rc" "reader_class_for (m_params s) d = None"
    using that create_reader_none [of s1 ?p] by (simp add: unf prim_tail_def mw ps)
  have c2: "fst (collect_readers_prim xf par (Node d cs) s) = Some (length (heap s1)) \<and>
           m_readers (snd (collect_readers_prim xf par (Node d cs) s))
             = m_readers s1 @ [Some (length (heap s1))] \<and>
           bmain (snd (collect_readers_prim xf par (Node d cs) s))
             = bmain s1 @ [length (heap s1)] \<and>
           deref (snd (collect_readers_prim xf par (Node d cs) s)) (length (heap s1))
             = Some ((construct_reader k ?p)\<lparr>refcount := 1\<rparr>) \<and>
           deref (snd (collect_readers_prim xf par (Node d cs) s)) c
             = Some (rc\<lparr>reader_parent := Some (length (heap s1))\<rparr>)"
    if "\<not> merge_eligible xf rc" "reader_class_for (m_params s) d = Some k" for k
    using that create_reader_class [of s1 ?p k] rc(1) lt
    by (simp add: unf prim_tail_def mw ps set_parent_def construct_reader_def)
  show ?thesis
  proof (intro exI [of _ rc] conjI impI allI)
    show "deref s1 c = Some rc" "reader_parent rc = None" by (fact rc)+
    show "fst (merge_with_parent xf c s1) \<longleftrightarrow> merge_eligible xf rc" by (fact a)
  qed (use b c1 c2 rc(1) in simp_all)
qed

theorem merge_single_child_witness:
  "fst (collect_readers_prim (\<lambda>k. True) (Some (mk_prim ''/'' [])) xform_node fresh_reader) = Some 0 \<and>
   m_readers (snd (collect_readers_prim (\<lambda>k. True) (Some (mk_prim ''/'' [])) xform_node fresh_reader))
     = [Some 0] \<and>
   map (map_option (\<lambda>r. (reader_class r, use_parent_xform r, reader_parent r)))
     (heap (snd (collect_readers_prim (\<lambda>k. True) (Some (mk_prim ''/'' [])) xform_node fresh_reader)))
     = [Some (USDMeshReader, True, None)] \<and>
   fst (collect_readers_prim (\<lambda>k. True) (Some (mk_prim ''/'' [])) xform_ops_node fresh_reader) = Some 1 \<and>
   m_readers (snd (collect_readers_prim (\<lambda>k. True) (Some (mk_prim ''/'' [])) xform_ops_node fresh_reader))
     = [Some 0, Some 1] \<and>
   map (map_option (\<lambda>r. (reader_class r, use_parent_xform r, reader_parent r)))
     (heap (snd (collect_readers_prim (\<lambda>k. True) (Some (mk_prim ''/'' [])) xform_ops_node fresh_reader)))
     = [Some (USDMeshReader, False, Some 1), Some (USDXformReader, False, None)]"
proof -
  let ?xf = "\<lambda>k::reader_class. True"
  let ?X = "mk_prim ''/X'' [UsdGeomXform, UsdGeomImageable]"
  let ?M = "mk_prim ''/X/M'' [UsdGeomMesh, UsdGeomImageable]"
  let ?cs1 = "[Node ?M []]"
  let ?cs2 = "[Node (?M\<lparr>xform_ops_authored := True\<rparr>) []]"
  have f: "\<not> (IsA ?X UsdGeomImageable \<and> \<not> include_by_purpose (m_params fresh_reader) ?X)"
    "\<not> (IsA ?X UsdGeomImageable \<and> \<not> include_by_visibility (m_params fresh_reader) ?X)"
    by (simp_all add: eval_defs fresh_reader_def)
  have r: "Some (mk_prim ''/'' []) \<noteq> None" by simp
  have c1: "collect_children ?xf ?X
      (GetFilteredChildren (import_instance_proxies (m_params fresh_reader)) ?cs1) fresh_reader
        = ([0], snd (collect_children ?xf ?X
      (GetFilteredChildren (import_instance_proxies (m_params fresh_reader)) ?cs1) fresh_reader))"
    by (simp add: eval_defs fresh_reader_def)
  have c2: "collect_children ?xf ?X
      (GetFilteredChildren (import_instance_proxies (m_params fresh_reader)) ?cs2) fresh_reader
        = ([0], snd (collect_children ?xf ?X
      (GetFilteredChildren (import_instance_proxies (m_params fresh_reader)) ?cs2) fresh_reader))"
    by (simp add: eval_defs fresh_reader_def)
  show ?thesis
    using merge_single_child [OF r f c1] merge_single_child [OF r f c2]
    by (simp add: eval_defs fresh_reader_def xform_node_def xform_ops_node_def)
qed

theorem merge_single_child_counterexample:
  "fst (collect_children (\<lambda>k. True) (mk_prim ''/G'' [])
          [Node (mk_prim ''/G/M'' [UsdGeomMesh, UsdGeomImageable]) []] fresh_reader) = [0] \<and>
   \<not> fst (merge_with_parent (\<lambda>k. True) 0
          (snd (collect_children (\<lambda>k. True) (mk_prim ''/G'' [])
             [Node (mk_prim ''/G/M'' [UsdGeomMesh, UsdGeomImageable]) []] fresh_reader))) \<and>
   fst (collect_readers_prim (\<lambda>k. True) (Some (mk_prim ''/'' [])) untyped_node fresh_reader) = None \<and>
   m_readers (snd (collect_readers_prim (\<lambda>k. True) (Some (mk_prim ''/'' [])) untyped_node fresh_reader))
     = [Some 0] \<and>
   map (map_option (\<lambda>r. (reader_class r, use_parent_xform r, reader_parent r)))
     (heap (snd (collect_readers_prim (\<lambda>k. True) (Some (mk_prim ''/'' [])) untyped_node fresh_reader)))
     = [Some (USDMeshReader, False, None)]"
  by (simp add: eval_defs fresh_reader_def untyped_node_def)

section \<open>Reference counts\<close>

lemma clear_loop_deletes:
  assumes "distinct as"
    and "\<forall>a\<in>set as. \<exists>rd. deref s a = Some rd \<and> refcount rd = 1"
  shows "deref (clear_readers_loop (map Some as) s) b = (if b \<in> set as then None else deref s b)"
  using assms
proof (induction as arbitrary: s)
  case Nil
  show ?case by simp
next
  case (Cons a as)
  obtain rd where rd: "deref s a = Some rd" "refcount rd = 1" using Cons.prems(2) by auto
  let ?t = "delete_reader a (decref a s)"
  have step: "clear_readers_loop (map Some (a # as)) s = clear_readers_loop (map Some as) ?t"
    using rd by simp
  have "\<forall>a'\<in>set as. \<exists>rd. deref ?t a' = Some rd \<and> refcount rd = 1"
    using Cons.prems by auto
  then have "deref (clear_readers_loop (map Some as) ?t) b
               = (if b \<in> set as then None else deref ?t b)"
    using Cons.IH Cons.prems(1) by simp
  then show ?case unfolding step by simp
qed

lemma clear_loop_retains:
  assumes "deref s a = Some rd"
    and "refcount rd \<le> 0 \<or> int (count_list rs (Some a)) < refcount rd"
  shows "deref (clear_readers_loop rs s) a
           = Some (rd\<lparr>refcount := refcount rd - int (count_list rs (Some a))\<rparr>)"
  using assms
proof (induction rs arbitrary: s rd)
  case Nil
  then show ?case by simp
next
  case (Cons r rs)
  show ?case
  proof (cases r)
    case None
    then show ?thesis using Cons by simp
  next
    case (Some b)
    define t where "t = (case deref (decref b s) b of
          None \<Rightarrow> decref b s
        | Some r \<Rightarrow>
            if refcount r = 0 then delete_reader b (decref b s)
            else decref b s)"
    have step: "clear_readers_loop (r # rs) s = clear_readers_loop rs t"
      unfolding Some t_def by (simp only: clear_readers_loop.simps)
    show ?thesis
    proof (cases "b = a")
      case True
      let ?rd' = "rd\<lparr>refcount := refcount rd - 1\<rparr>"
      have ne: "refcount rd - 1 \<noteq> 0" using Cons.prems(2) Some True by auto
      have t: "deref t a = Some ?rd'"
        using Cons.prems(1) True ne by (simp add: t_def)
      have c: "refcount ?rd' \<le> 0 \<or> int (count_list rs (Some a)) < refcount ?rd'"
        using Cons.prems(2) Some True by auto
      have "deref (clear_readers_loop rs t) a
              = Some (?rd'\<lparr>refcount := refcount ?rd' - int (count_list rs (Some a))\<rparr>)"
        using Cons.IH [OF t c] .
      then show ?thesis unfolding step using Some True by simp
    next
      case False
      have t: "deref t a = Some rd"
        using Cons.prems(1) False by (simp add: t_def split: option.split)
      have c: "refcount rd \<le> 0 \<or> int (count_list rs (Some a)) < refcount rd"
        using Cons.prems(2) Some False by auto
      show ?thesis unfolding step using Cons.IH [OF t c] Some False by simp
    qed
  qed
qed

lemma deref_clear_readers:
  "deref (clear_readers s) a = deref (clear_readers_loop (m_readers s) s) a"
  by (simp add: clear_readers_def deref_def)

lemma clear_readers_twice: "clear_readers (clear_readers t) = clear_readers t"
proof -
  have "m_readers (clear_readers t) = []" by simp
  then have "clear_readers (clear_readers t) = (clear_readers t)\<lparr>m_readers := []\<rparr>"
    by (simp add: clear_readers_def [of "clear_readers t"])
  also have "\<dots> = clear_readers t"
    by (rule USDStageReader.equality) simp_all
  finally show ?thesis .
qed

lemma merge_keeps_refcount:
  "map_option refcount (deref (snd (merge_with_parent xf a t)) c) = map_option refcount (deref t c)"
proof -
  obtain b t' where m: "merge_with_parent xf a t = (b, t')"
    by (cases "merge_with_parent xf a t")
  show ?thesis
    using merge_with_parent_cases [OF m] m by (cases "deref t a") auto
qed

lemma collected_readers:
  assumes "valid s"
  shows "\<exists>n0 n1. m_readers (collect_readers xf s) = map Some [n0..<n1] \<and>
           (\<forall>a. n0 \<le> a \<and> a < n1 \<longrightarrow>
              (\<exists>rd. deref (collect_readers xf s) a = Some rd \<and> refcount rd = 1))"
proof -
  obtain stage where st: "m_stage s = Some stage" using assms by (auto simp: valid_def)
  obtain par n e where c: "collect_readers xf s
           = snd (collect_readers_prim xf par n (begin_traversal stage e s))"
    using collect_readers_traversal [OF st] by blast
  let ?s0 = "begin_traversal stage e s"
  have g: "grows ?s0 (collect_readers xf s)"
    using traversal_grows [of ?s0 xf par n] c by simp
  then have "m_readers (collect_readers xf s)
               = map Some [length (heap ?s0)..<length (heap (collect_readers xf s))]"
    by (simp add: grows_def)
  moreover have "\<forall>a. length (heap ?s0) \<le> a \<and> a < length (heap (collect_readers xf s)) \<longrightarrow>
              (\<exists>rd. deref (collect_readers xf s) a = Some rd \<and> refcount rd = 1)"
    using g by (simp add: grows_def)
  ultimately show ?thesis by blast
qed

text \<open>
  Claim C5, amended. Every reader is reference-counted, and the stage reader changes the
  count in two places only. Registration increments it once: after
  \<^verbatim>\<open>collect_readers\<close> every registered reader is live with count 1, whether it was
  merged or not. A merge leaves the count of every reader as it is, and the traversal
  never decrements a count. \<^verbatim>\<open>clear_readers\<close> decrements the count of a reader once for
  every entry of the vector that points to it and deletes the reader only when the count
  reaches zero: a reader whose count is larger than the number of its entries (it is
  retained elsewhere) stays live with the count reduced by that number. Consequently,
  after \<^verbatim>\<open>collect_readers\<close>, \<^verbatim>\<open>clear_readers\<close> deallocates every registered
  reader; the vector is empty after any \<^verbatim>\<open>clear_readers\<close>, and a second call changes
  nothing.

  The counterexample is the transform over a mesh: the mesh reader has count 1 after
  registration, the merge succeeds and leaves the count at 1, and the count is still 1
  when the traversal is complete.
\<close>

theorem reader_refcounts:
  "(valid s \<longrightarrow>
      (\<forall>a. Some a \<in> set (m_readers (collect_readers xf s)) \<longrightarrow>
         (\<exists>rd. deref (collect_readers xf s) a = Some rd \<and> refcount rd = 1) \<and>
         deref (clear_readers (collect_readers xf s)) a = None)) \<and>
   (\<forall>c. map_option refcount (deref (snd (merge_with_parent xf a t)) c)
          = map_option refcount (deref t c)) \<and>
   (\<forall>b rd. deref t b = Some rd \<and>
        (refcount rd \<le> 0 \<or> int (count_list (m_readers t) (Some b)) < refcount rd) \<longrightarrow>
      deref (clear_readers t) b
        = Some (rd\<lparr>refcount := refcount rd - int (count_list (m_readers t) (Some b))\<rparr>)) \<and>
   m_readers (clear_readers t) = [] \<and>
   clear_readers (clear_readers t) = clear_readers t"
proof (intro conjI allI impI)
  fix a
  assume v: "valid s" and reg: "Some a \<in> set (m_readers (collect_readers xf s))"
  let ?s' = "collect_readers xf s"
  obtain n0 n1 where r: "m_readers ?s' = map Some [n0..<n1]"
    and live: "\<forall>a. n0 \<le> a \<and> a < n1 \<longrightarrow> (\<exists>rd. deref ?s' a = Some rd \<and> refcount rd = 1)"
    using collected_readers [OF v] by blast
  have a: "n0 \<le> a \<and> a < n1" using reg r by auto
  then show "\<exists>rd. deref ?s' a = Some rd \<and> refcount rd = 1" using live by blast
  have "deref (clear_readers_loop (map Some [n0..<n1]) ?s') a
          = (if a \<in> set [n0..<n1] then None else deref ?s' a)"
    using live by (intro clear_loop_deletes) auto
  then show "deref (clear_readers ?s') a = None" using a r by (simp add: deref_clear_readers)
next
  fix b rd
  assume "deref t b = Some rd \<and>
        (refcount rd \<le> 0 \<or> int (count_list (m_readers t) (Some b)) < refcount rd)"
  then show "deref (clear_readers t) b
        = Some (rd\<lparr>refcount := refcount rd - int (count_list (m_readers t) (Some b))\<rparr>)"
    using clear_loop_retains [of t b rd "m_readers t"] by (simp add: deref_clear_readers)
qed (simp_all add: merge_keeps_refcount clear_readers_twice)


theorem reader_refcounts_witness:
  "valid (construct_stage_reader (stage_of xform_mesh_ops_stage) import_all) \<and>
   m_readers (collect_readers (\<lambda>k. True)
      (construct_stage_reader (stage_of xform_mesh_ops_stage) import_all)) = [Some 0, Some 1] \<and>
   deref (clear_readers (collect_readers (\<lambda>k. True)
      (construct_stage_reader (stage_of xform_mesh_ops_stage) import_all))) 0 = None \<and>
   deref (clear_readers (collect_readers (\<lambda>k. True)
      (construct_stage_reader (stage_of xform_mesh_ops_stage) import_all))) 1 = None \<and>
   map_option refcount (deref (incref 0 stale_reader_state) 0) = Some 2 \<and>
   map_option refcount (deref (clear_readers (incref 0 stale_reader_state)) 0) = Some 1"
proof -
  let ?s = "construct_stage_reader (stage_of xform_mesh_ops_stage) import_all"
  let ?xf = "\<lambda>k::reader_class. True"
  let ?t = "incref 0 stale_reader_state"
  have v: "valid ?s" by (simp add: valid_def construct_stage_reader_def stage_of_def)
  have r: "m_readers (collect_readers ?xf ?s) = [Some 0, Some 1]"
    by (simp add: eval_defs xform_mesh_ops_stage_def)
  have t: "deref ?t 0
      = Some ((construct_reader USDMeshReader
                      \<lparr>GetData = mesh_prim, GetParent = Some (mk_prim ''/'' [])\<rparr>)
                    \<lparr>refcount := 2\<rparr>)"
    "m_readers stale_reader_state = [Some 0]"
    by (simp_all add: stale_reader_state_def incref_def update_reader_def deref_def
          construct_reader_def)
  have inst: "(\<forall>a. Some a \<in> set (m_readers (collect_readers ?xf ?s)) \<longrightarrow>
         deref (clear_readers (collect_readers ?xf ?s)) a = None) \<and>
      (refcount ((construct_reader USDMeshReader
                      \<lparr>GetData = mesh_prim, GetParent = Some (mk_prim ''/'' [])\<rparr>)
                    \<lparr>refcount := 2\<rparr>) \<le> 0 \<or>
       int (count_list (m_readers ?t) (Some 0))
         < refcount ((construct_reader USDMeshReader
                      \<lparr>GetData = mesh_prim, GetParent = Some (mk_prim ''/'' [])\<rparr>)
                    \<lparr>refcount := 2\<rparr>) \<longrightarrow>
       deref (clear_readers ?t) 0
        = Some ((construct_reader USDMeshReader
                      \<lparr>GetData = mesh_prim, GetParent = Some (mk_prim ''/'' [])\<rparr>)
                    \<lparr>refcount := 2\<rparr>
                 \<lparr>refcount := refcount ((construct_reader USDMeshReader
                      \<lparr>GetData = mesh_prim, GetParent = Some (mk_prim ''/'' [])\<rparr>)
                    \<lparr>refcount := 2\<rparr>) - int (count_list (m_readers ?t) (Some 0))\<rparr>))"
    using reader_refcounts [where s = ?s and xf = ?xf and t = ?t and a = 0] v t(1) by blast
  have d: "deref (clear_readers (collect_readers ?xf ?s)) 0 = None"
    "deref (clear_readers (collect_readers ?xf ?s)) 1 = None"
    using inst by (simp_all add: r)
  have e: "map_option refcount (deref (clear_readers ?t) 0) = Some 1"
    using inst by (simp add: t(2))
  have f: "map_option refcount (deref ?t 0) = Some 2"
    unfolding t(1) by simp
  show ?thesis using v r d e f by blast
qed

theorem reader_refcounts_counterexample:
  "fst (collect_children (\<lambda>k. True) (mk_prim ''/X'' [UsdGeomXform, UsdGeomImageable])
          [Node (mk_prim ''/X/M'' [UsdGeomMesh, UsdGeomImageable]) []] fresh_reader) = [0] \<and>
   map (map_option refcount)
     (heap (snd (collect_children (\<lambda>k. True) (mk_prim ''/X'' [UsdGeomXform, UsdGeomImageable])
          [Node (mk_prim ''/X/M'' [UsdGeomMesh, UsdGeomImageable]) []] fresh_reader))) = [Some 1] \<and>
   fst (merge_with_parent (\<lambda>k. True) 0
     (snd (collect_children (\<lambda>k. True) (mk_prim ''/X'' [UsdGeomXform, UsdGeomImageable])
          [Node (mk_prim ''/X/M'' [UsdGeomMesh, UsdGeomImageable]) []] fresh_reader))) \<and>
   map (map_option refcount)
     (heap (snd (merge_with_parent (\<lambda>k. True) 0
       (snd (collect_children (\<lambda>k. True) (mk_prim ''/X'' [UsdGeomXform, UsdGeomImageable])
          [Node (mk_prim ''/X/M'' [UsdGeomMesh, UsdGeomImageable]) []] fresh_reader))))) = [Some 1] \<and>
   map (map_option (\<lambda>r. (use_parent_xform r, refcount r)))
     (heap (collect_readers (\<lambda>k. True)
        (construct_stage_reader (stage_of xform_mesh_stage) import_all))) = [Some (True, 1)]"
  by (simp add: eval_defs fresh_reader_def xform_mesh_stage_def)

section \<open>The keyframe index\<close>

lemma set_insert_key:
  assumes "ascending kl"
  shows "set (insert_key k kl) =
           {c \<in> set kl. cfra c \<noteq> key_cfra k} \<union>
           (if key_cfra k \<in> cfra ` set kl
            then merge_column k ` {c \<in> set kl. cfra c = key_cfra k}
            else {new_column k})"
  using assms
proof (induction kl)
  case Nil
  show ?case by simp
next
  case (Cons c cs)
  then have asc: "ascending cs" and lt: "\<forall>c'\<in>set cs. cfra c < cfra c'"
    by (simp_all add: ascending_def)
  show ?case
  proof (cases "key_cfra k < cfra c")
    case True
    then have "key_cfra k \<notin> cfra ` set (c # cs)" using lt by force
    moreover have "{c' \<in> set (c # cs). cfra c' \<noteq> key_cfra k} = set (c # cs)"
      using True lt by force
    ultimately show ?thesis using True by simp
  next
    case False
    show ?thesis
    proof (cases "key_cfra k = cfra c")
      case True
      have "{c' \<in> set (c # cs). cfra c' = key_cfra k} = {c}" using True lt by force
      moreover have "{c' \<in> set (c # cs). cfra c' \<noteq> key_cfra k} = set cs" using True lt by force
      ultimately show ?thesis using True by simp
    next
      case ne: False
      have "set (insert_key k (c # cs)) = insert c (set (insert_key k cs))"
        using False ne by simp
      also have "\<dots> = insert c ({c \<in> set cs. cfra c \<noteq> key_cfra k} \<union>
           (if key_cfra k \<in> cfra ` set cs
            then merge_column k ` {c \<in> set cs. cfra c = key_cfra k}
            else {new_column k}))"
        using Cons.IH [OF asc] by simp
      also have "\<dots> = {c' \<in> set (c # cs). cfra c' \<noteq> key_cfra k} \<union>
           (if key_cfra k \<in> cfra ` set (c # cs)
            then merge_column k ` {c' \<in> set (c # cs). cfra c' = key_cfra k}
            else {new_column k})"
        using ne by auto
      finally show ?thesis .
    qed
  qed
qed

lemma cfra_merge_column [simp]: "cfra (merge_column k c) = cfra c"
  by (simp add: merge_column_def)

lemma cfra_new_column [simp]: "cfra (new_column k) = key_cfra k"
  by (simp add: new_column_def)

lemma times_insert_key:
  assumes "ascending kl"
  shows "cfra ` set (insert_key k kl) = insert (key_cfra k) (cfra ` set kl)"
proof -
  have "cfra ` merge_column k ` S = cfra ` S" for S
    by (simp add: image_image)
  then have "cfra ` set (insert_key k kl) =
           cfra ` {c \<in> set kl. cfra c \<noteq> key_cfra k} \<union>
           (if key_cfra k \<in> cfra ` set kl
            then cfra ` {c \<in> set kl. cfra c = key_cfra k}
            else {key_cfra k})"
    by (simp add: set_insert_key [OF assms] image_Un)
  also have "\<dots> = insert (key_cfra k) (cfra ` set kl)"
    by (cases "key_cfra k \<in> cfra ` set kl") (simp; blast)+
  finally show ?thesis .
qed

lemma ascending_insert_key:
  assumes "ascending kl"
  shows "ascending (insert_key k kl)"
  using assms
proof (induction kl)
  case Nil
  show ?case by (simp add: ascending_def)
next
  case (Cons c cs)
  then have asc: "ascending cs" and lt: "\<forall>c'\<in>set cs. cfra c < cfra c'"
    by (simp_all add: ascending_def)
  show ?case
  proof (cases "key_cfra k < cfra c")
    case True
    then show ?thesis using Cons.prems lt by (auto simp: ascending_def)
  next
    case False
    show ?thesis
    proof (cases "key_cfra k = cfra c")
      case True
      then show ?thesis using Cons.prems by (simp add: ascending_def)
    next
      case ne: False
      have "\<forall>c'\<in>set (insert_key k cs). cfra c < cfra c'"
      proof
        fix c' assume "c' \<in> set (insert_key k cs)"
        then have "cfra c' \<in> insert (key_cfra k) (cfra ` set cs)"
          using times_insert_key [OF asc, of k] by blast
        then show "cfra c < cfra c'" using lt False ne by auto
      qed
      then show ?thesis using False ne Cons.IH [OF asc] by (simp add: ascending_def)
    qed
  qed
qed

lemma keys_to_keylist_snoc:
  "keys_to_keylist (ks @ [k]) kl = insert_key k (keys_to_keylist ks kl)"
  by (simp add: keys_to_keylist_def)

lemma ascending_populated: "ascending (keys_to_keylist ks ED_keylist_create)"
  by (induction ks rule: rev_induct)
     (simp_all add: keys_to_keylist_snoc ascending_insert_key,
      simp add: keys_to_keylist_def ED_keylist_create_def ascending_def)

lemma times_populated:
  "cfra ` set (keys_to_keylist ks ED_keylist_create) = key_cfra ` set ks"
proof (induction ks rule: rev_induct)
  case Nil
  show ?case by (simp add: keys_to_keylist_def ED_keylist_create_def)
next
  case (snoc k ks)
  show ?case
    using times_insert_key [OF ascending_populated, of k ks] snoc.IH
    by (simp add: keys_to_keylist_snoc)
qed

lemma find_first:
  assumes "sorted_wrt R xs" and "find P xs = Some c"
  shows "c \<in> set xs \<and> P c \<and> (\<forall>c'\<in>set xs. P c' \<longrightarrow> c' = c \<or> R c c')"
  using assms
proof (induction xs)
  case Nil
  then show ?case by simp
next
  case (Cons x xs)
  show ?case
  proof (cases "P x")
    case True
    then have "c = x" using Cons.prems(2) by simp
    then show ?thesis using True Cons.prems(1) by auto
  next
    case False
    then have "find P xs = Some c" using Cons.prems(2) by simp
    then show ?thesis using Cons.IH Cons.prems(1) False by auto
  qed
qed


lemma find_none: "find P xs = None \<longleftrightarrow> (\<forall>x\<in>set xs. \<not> P x)"
  by (induction xs) auto

text \<open>
  Claim C9. For every index populated from keyframes: \<open>find_exact\<close> returns the one
  column whose time is the given one, or none when there is no such column;
  \<open>find_next\<close> returns the column of least time strictly greater than the given one, or
  none; \<open>find_prev\<close> returns the column of greatest time strictly less than the given
  one, or none; \<open>find_any_between\<close> returns a column whose time lies strictly between
  the bounds, or none when no column does. The columns are in strictly ascending time
  and their times are the times of the keyframes. On the index with columns at 1, 5 and
  10 the queries give the columns of the scenario.
\<close>

theorem keylist_queries:
  assumes "keylist = keys_to_keylist ks ED_keylist_create"
  shows
  "(\<forall>c. ED_keylist_find_exact keylist t = Some c \<longrightarrow>
        c \<in> set keylist \<and> cfra c = t \<and> (\<forall>c'\<in>set keylist. cfra c' = t \<longrightarrow> c' = c)) \<and>
   (ED_keylist_find_exact keylist t = None \<longleftrightarrow> (\<forall>c\<in>set keylist. cfra c \<noteq> t)) \<and>
   (\<forall>c. ED_keylist_find_next keylist t = Some c \<longrightarrow>
        c \<in> set keylist \<and> t < cfra c \<and>
        (\<forall>c'\<in>set keylist. t < cfra c' \<longrightarrow> cfra c \<le> cfra c')) \<and>
   (ED_keylist_find_next keylist t = None \<longleftrightarrow> (\<forall>c\<in>set keylist. \<not> t < cfra c)) \<and>
   (\<forall>c. ED_keylist_find_prev keylist t = Some c \<longrightarrow>
        c \<in> set keylist \<and> cfra c < t \<and>
        (\<forall>c'\<in>set keylist. cfra c' < t \<longrightarrow> cfra c' \<le> cfra c)) \<and>
   (ED_keylist_find_prev keylist t = None \<longleftrightarrow> (\<forall>c\<in>set keylist. \<not> cfra c < t)) \<and>
   (\<forall>c. ED_keylist_find_any_between keylist min_fra max_fra = Some c \<longrightarrow>
        c \<in> set keylist \<and> min_fra < cfra c \<and> cfra c < max_fra) \<and>
   (ED_keylist_find_any_between keylist min_fra max_fra = None \<longleftrightarrow>
        (\<forall>c\<in>set keylist. \<not> (min_fra < cfra c \<and> cfra c < max_fra))) \<and>
   ascending keylist \<and> cfra ` set keylist = key_cfra ` set ks"
proof -
  have asc: "sorted_wrt (\<lambda>a b. cfra a < cfra b) keylist"
    using ascending_populated [of ks] assms by (simp add: ascending_def)
  then have desc: "sorted_wrt (\<lambda>a b. cfra b < cfra a) (rev keylist)"
    by (simp add: sorted_wrt_rev)
  have exact: "c \<in> set keylist \<and> cfra c = t \<and> (\<forall>c'\<in>set keylist. cfra c' = t \<longrightarrow> c' = c)"
    if "ED_keylist_find_exact keylist t = Some c" for c
    using find_first [OF asc, of "\<lambda>c. cfra c = t" c] that
    by (auto simp: ED_keylist_find_exact_def)
  have nxt: "c \<in> set keylist \<and> t < cfra c \<and>
        (\<forall>c'\<in>set keylist. t < cfra c' \<longrightarrow> cfra c \<le> cfra c')"
    if "ED_keylist_find_next keylist t = Some c" for c
    using find_first [OF asc, of "\<lambda>c. t < cfra c" c] that
    by (auto simp: ED_keylist_find_next_def)
  have prv: "c \<in> set keylist \<and> cfra c < t \<and>
        (\<forall>c'\<in>set keylist. cfra c' < t \<longrightarrow> cfra c' \<le> cfra c)"
    if "ED_keylist_find_prev keylist t = Some c" for c
    using find_first [OF desc, of "\<lambda>c. cfra c < t" c] that
    by (auto simp: ED_keylist_find_prev_def)
  have btw: "c \<in> set keylist \<and> min_fra < cfra c \<and> cfra c < max_fra"
    if "ED_keylist_find_any_between keylist min_fra max_fra = Some c" for c
    using find_first [OF asc, of "\<lambda>c. min_fra < cfra c \<and> cfra c < max_fra" c] that
    by (auto simp: ED_keylist_find_any_between_def)
  have none: "ED_keylist_find_exact keylist t = None \<longleftrightarrow> (\<forall>c\<in>set keylist. cfra c \<noteq> t)"
    "ED_keylist_find_next keylist t = None \<longleftrightarrow> (\<forall>c\<in>set keylist. \<not> t < cfra c)"
    "ED_keylist_find_prev keylist t = None \<longleftrightarrow> (\<forall>c\<in>set keylist. \<not> cfra c < t)"
    "ED_keylist_find_any_between keylist min_fra max_fra = None \<longleftrightarrow>
        (\<forall>c\<in>set keylist. \<not> (min_fra < cfra c \<and> cfra c < max_fra))"
    by (simp_all add: ED_keylist_find_exact_def ED_keylist_find_next_def
          ED_keylist_find_prev_def ED_keylist_find_any_between_def find_none)
  have "ascending keylist" "cfra ` set keylist = key_cfra ` set ks"
    using ascending_populated [of ks] times_populated [of ks] assms by simp_all
  then show ?thesis using exact nxt prv btw none by blast
qed

theorem keylist_queries_witness:
  "map cfra three_columns = [1, 5, 10] \<and>
   map_option cfra (ED_keylist_find_exact three_columns 5) = Some 5 \<and>
   map_option cfra (ED_keylist_find_next three_columns 5) = Some 10 \<and>
   map_option cfra (ED_keylist_find_prev three_columns 5) = Some 1 \<and>
   ED_keylist_find_any_between three_columns 5 10 = None \<and>
   map_option cfra (ED_keylist_find_any_between three_columns 0 10) = Some 1 \<and>
   ED_keylist_find_exact three_columns 7 = None \<and>
   ED_keylist_find_next three_columns 10 = None \<and>
   ED_keylist_find_prev three_columns 1 = None \<and>
   ascending three_columns"
proof -
  have l: "three_columns =
     [\<lparr>cfra = 1, handle_type = KEYFRAME_HANDLE_NONE, totkey = 1\<rparr>,
      \<lparr>cfra = 5, handle_type = KEYFRAME_HANDLE_NONE, totkey = 2\<rparr>,
      \<lparr>cfra = 10, handle_type = KEYFRAME_HANDLE_NONE, totkey = 1\<rparr>]"
    by (simp add: three_columns_def keys_to_keylist_def ED_keylist_create_def key_at_def
          new_column_def merge_column_def higher_priority_def)
  have e: "map cfra three_columns = [1, 5, 10]"
    "map_option cfra (ED_keylist_find_exact three_columns 5) = Some 5"
    "map_option cfra (ED_keylist_find_next three_columns 5) = Some 10"
    "map_option cfra (ED_keylist_find_prev three_columns 5) = Some 1"
    "ED_keylist_find_any_between three_columns 5 10 = None"
    "map_option cfra (ED_keylist_find_any_between three_columns 0 10) = Some 1"
    "ED_keylist_find_exact three_columns 7 = None"
    "ED_keylist_find_next three_columns 10 = None"
    "ED_keylist_find_prev three_columns 1 = None"
    by (simp_all add: l ED_keylist_find_exact_def ED_keylist_find_next_def
          ED_keylist_find_prev_def ED_keylist_find_any_between_def)
  have "\<forall>c\<in>set three_columns. \<not> (5 < cfra c \<and> cfra c < 10)"
    using keylist_queries [OF three_columns_def, of 5 5 10] e(5) by blast
  moreover have "ascending three_columns"
    using keylist_queries [OF three_columns_def, of 5 5 10] by blast
  ultimately show ?thesis using e by blast
qed

lemma higher_priority_cases:
  "(higher_priority a b = a \<or> higher_priority a b = b) \<and>
   handle_enum_value a \<le> handle_enum_value (higher_priority a b) \<and>
   handle_enum_value b \<le> handle_enum_value (higher_priority a b)"
  by (simp add: higher_priority_def)

lemma handle_populated:
  "\<forall>c\<in>set (keys_to_keylist ks ED_keylist_create).
     (\<exists>k\<in>set ks. key_cfra k = cfra c \<and> key_handle k = handle_type c) \<and>
     (\<forall>k\<in>set ks. key_cfra k = cfra c \<longrightarrow>
        handle_enum_value (key_handle k) \<le> handle_enum_value (handle_type c))"
proof (induction ks rule: rev_induct)
  case Nil
  show ?case by (simp add: keys_to_keylist_def ED_keylist_create_def)
next
  case (snoc k ks)
  let ?kl = "keys_to_keylist ks ED_keylist_create"
  have asc: "ascending ?kl" by (rule ascending_populated)
  have times: "cfra ` set ?kl = key_cfra ` set ks" by (rule times_populated)
  show ?case
  proof
    fix c' assume "c' \<in> set (keys_to_keylist (ks @ [k]) ED_keylist_create)"
    then have mem: "c' \<in> {c \<in> set ?kl. cfra c \<noteq> key_cfra k} \<union>
           (if key_cfra k \<in> cfra ` set ?kl
            then merge_column k ` {c \<in> set ?kl. cfra c = key_cfra k}
            else {new_column k})"
      using set_insert_key [OF asc, of k] by (simp add: keys_to_keylist_snoc)
    let ?goal = "(\<exists>k'\<in>set (ks @ [k]). key_cfra k' = cfra c' \<and> key_handle k' = handle_type c') \<and>
     (\<forall>k'\<in>set (ks @ [k]). key_cfra k' = cfra c' \<longrightarrow>
        handle_enum_value (key_handle k') \<le> handle_enum_value (handle_type c'))"
    consider (old) "c' \<in> set ?kl" "cfra c' \<noteq> key_cfra k"
      | (merged) c where "c \<in> set ?kl" "cfra c = key_cfra k" "c' = merge_column k c"
      | (new) "key_cfra k \<notin> cfra ` set ?kl" "c' = new_column k"
      using mem by (auto split: if_splits)
    then show ?goal
    proof cases
      case old
      then show ?thesis using snoc.IH by auto
    next
      case merged
      have ih: "(\<exists>k'\<in>set ks. key_cfra k' = cfra c \<and> key_handle k' = handle_type c) \<and>
         (\<forall>k'\<in>set ks. key_cfra k' = cfra c \<longrightarrow>
            handle_enum_value (key_handle k') \<le> handle_enum_value (handle_type c))"
        using snoc.IH merged(1) by blast
      have h: "handle_type c' = higher_priority (handle_type c) (key_handle k)"
        "cfra c' = cfra c"
        using merged(3) by (simp_all add: merge_column_def)
      have up: "\<forall>k'\<in>set (ks @ [k]). key_cfra k' = cfra c' \<longrightarrow>
            handle_enum_value (key_handle k') \<le> handle_enum_value (handle_type c')"
        using ih h higher_priority_cases [of "handle_type c" "key_handle k"]
        by (auto intro: order_trans)
      have ex: "\<exists>k'\<in>set (ks @ [k]). key_cfra k' = cfra c' \<and> key_handle k' = handle_type c'"
      proof (cases "higher_priority (handle_type c) (key_handle k) = handle_type c")
        case True
        then show ?thesis using ih h by auto
      next
        case False
        then have "higher_priority (handle_type c) (key_handle k) = key_handle k"
          using higher_priority_cases [of "handle_type c" "key_handle k"] by blast
        then show ?thesis using h merged(2) by auto
      qed
      show ?thesis using up ex by blast
    next
      case new
      then have "key_cfra k \<notin> key_cfra ` set ks" using times by simp
      then have "\<forall>k'\<in>set ks. key_cfra k' \<noteq> key_cfra k" by (metis image_eqI)
      then show ?thesis using new(2) by (auto simp: new_column_def)
    qed
  qed
qed

text \<open>
  Claim C10. The handle categories are ranked by the values of their enumerators in the
  strict order none, auto-clamped, auto, vector, aligned, free. In an index populated
  from keyframes, the handle type of every column is the handle category of one of the
  keyframes at the column's time, and no keyframe at that time has a category of higher
  rank: the column carries the highest-priority category among its contributors. Keyframes
  marking AUTO and VECTOR at one time give a column of handle type VECTOR, in either
  order.
\<close>

theorem handle_priority:
  "handle_enum_value KEYFRAME_HANDLE_NONE < handle_enum_value KEYFRAME_HANDLE_AUTO_CLAMP \<and>
   handle_enum_value KEYFRAME_HANDLE_AUTO_CLAMP < handle_enum_value KEYFRAME_HANDLE_AUTO \<and>
   handle_enum_value KEYFRAME_HANDLE_AUTO < handle_enum_value KEYFRAME_HANDLE_VECTOR \<and>
   handle_enum_value KEYFRAME_HANDLE_VECTOR < handle_enum_value KEYFRAME_HANDLE_ALIGNED \<and>
   handle_enum_value KEYFRAME_HANDLE_ALIGNED < handle_enum_value KEYFRAME_HANDLE_FREE \<and>
   (\<forall>c\<in>set (keys_to_keylist ks ED_keylist_create).
     (\<exists>k\<in>set ks. key_cfra k = cfra c \<and> key_handle k = handle_type c) \<and>
     (\<forall>k\<in>set ks. key_cfra k = cfra c \<longrightarrow>
        handle_enum_value (key_handle k) \<le> handle_enum_value (handle_type c)))"
  using handle_populated [of ks] by simp

theorem handle_priority_witness:
  "map (\<lambda>c. (cfra c, handle_type c)) (keys_to_keylist auto_then_vector ED_keylist_create)
     = [(3, KEYFRAME_HANDLE_VECTOR)] \<and>
   map (\<lambda>c. (cfra c, handle_type c)) (keys_to_keylist (rev auto_then_vector) ED_keylist_create)
     = [(3, KEYFRAME_HANDLE_VECTOR)] \<and>
   handle_enum_value KEYFRAME_HANDLE_AUTO < handle_enum_value KEYFRAME_HANDLE_VECTOR"
proof -
  have e: "keys_to_keylist auto_then_vector ED_keylist_create
             = [\<lparr>cfra = 3, handle_type = KEYFRAME_HANDLE_VECTOR, totkey = 2\<rparr>]"
    "keys_to_keylist (rev auto_then_vector) ED_keylist_create
             = [\<lparr>cfra = 3, handle_type = KEYFRAME_HANDLE_VECTOR, totkey = 2\<rparr>]"
    by (simp_all add: auto_then_vector_def keys_to_keylist_def ED_keylist_create_def
          new_column_def merge_column_def higher_priority_def)
  have "handle_enum_value KEYFRAME_HANDLE_AUTO < handle_enum_value KEYFRAME_HANDLE_VECTOR"
    using handle_priority [of auto_then_vector] by blast
  then show ?thesis using e by simp
qed

section \<open>Child readers of a prim without a reader\<close>

lemma collect_children_append:
  "collect_children xf d (xs @ ys) s =
     (case collect_children xf d xs s of
        (rs1, s1) \<Rightarrow>
          (case collect_children xf d ys s1 of (rs2, s2) \<Rightarrow> (rs1 @ rs2, s2)))"
proof (induction xs arbitrary: s)
  case Nil
  show ?case by (simp split: prod.split)
next
  case (Cons x xs)
  obtain r1 s1 where c1: "collect_readers_prim xf (Some d) x s = (r1, s1)"
    by (cases "collect_readers_prim xf (Some d) x s")
  show ?case
    by (cases r1) (simp_all add: c1 Cons.IH split: prod.split)
qed

lemma prim_tail_untouched:
  assumes "a \<notin> set crs" and "a < length (heap s1)"
    and "prim_tail xf p crs s1 = (r, s')"
  shows "deref s' a = deref s1 a \<and> r \<noteq> Some a \<and> length (heap s1) \<le> length (heap s')"
proof -
  obtain merged s2 where m:
    "(if length crs = 1 then merge_with_parent xf (hd crs) s1 else (False, s1)) = (merged, s2)"
    by (cases "if length crs = 1 then merge_with_parent xf (hd crs) s1 else (False, s1)")
  show ?thesis
  proof (cases merged)
    case True
    then have one: "length crs = 1" and mw: "merge_with_parent xf (hd crs) s1 = (True, s2)"
      using m by (auto split: if_splits)
    then obtain c where crs: "crs = [c]" by (cases crs) auto
    have s2: "s2 = update_reader c (\<lambda>r. r\<lparr>use_parent_xform := True\<rparr>) s1"
      using merge_with_parent_cases [OF mw] crs by simp
    have res: "r = Some c" "s' = s2"
      using assms(3) m True crs by (simp_all add: prim_tail_def)
    show ?thesis using assms(1) crs res s2 by auto
  next
    case False
    have s2: "s2 = s1"
      using m False merge_with_parent_cases [of xf "hd crs" s1 merged s2]
      by (auto split: if_splits)
    obtain r3 s3 where c: "create_reader_if_allowed p s1 = (r3, s3)"
      by (cases "create_reader_if_allowed p s1")
    from create_reader_if_allowed_cases [OF c]
    show ?thesis
    proof
      assume "r3 = None \<and> s3 = s1"
      then have "r = None" "s' = s1"
        using assms(3) m False s2 c by (simp_all add: prim_tail_def)
      then show ?thesis by simp
    next
      assume "\<exists>k. r3 = Some (length (heap s1)) \<and> s3 = snd (new_reader k p s1)"
      then obtain k where r3: "r3 = Some (length (heap s1))"
        and s3: "s3 = snd (new_reader k p s1)" by blast
      let ?n = "length (heap s1)"
      have res: "r = Some ?n"
        "s' = set_parents crs ?n (incref ?n (push_back ?n (create_object ?n s3)))"
        using assms(3) m False s2 c r3 by (simp_all add: prim_tail_def)
      show ?thesis using assms(1,2) by (simp add: res s3 deref_set_parents)
    qed
  qed
qed

lemma visit_untouched:
  assumes "visits xf parP nP sP par n s"
    and "collect_readers_prim xf parP nP sP = (None, sP')"
    and "length (heap sP) \<le> a" and "a < length (heap sP')"
    and "collect_readers_prim xf par n s = (r, s')"
  shows "deref s' a = deref sP' a \<and> r \<noteq> Some a \<and>
         length (heap s) \<le> length (heap sP) \<and> length (heap sP') \<le> length (heap s')"
  using assms(1,5)
proof (induction arbitrary: r s' rule: visits.induct)
  case visits_here
  then show ?case using assms(2) by simp
next
  case (visits_child d s cs before c after par)
  let ?p = "\<lparr>GetData = d, GetParent = par\<rparr>"
  obtain rs0 sc where b: "collect_children xf d before s = (rs0, sc)"
    by (cases "collect_children xf d before s")
  obtain rc sc' where cc: "collect_readers_prim xf (Some d) c sc = (rc, sc')"
    by (cases "collect_readers_prim xf (Some d) c sc")
  obtain rs2 s1 where af: "collect_children xf d after sc' = (rs2, s1)"
    by (cases "collect_children xf d after sc'")
  have ih: "deref sc' a = deref sP' a" "rc \<noteq> Some a"
    "length (heap sc) \<le> length (heap sP)" "length (heap sP') \<le> length (heap sc')"
    using visits_child.IH [of rc sc'] b cc by simp_all
  have g0: "grows s sc" "\<forall>x\<in>set rs0. top_reader s sc (Some d) x"
    using traversal_inv(2) [OF b] by simp_all
  have g2: "grows sc' s1" "\<forall>x\<in>set rs2. top_reader sc' s1 (Some d) x"
    using traversal_inv(2) [OF af] by simp_all
  define crs where "crs = rs0 @ (case rc of None \<Rightarrow> [] | Some x \<Rightarrow> [x]) @ rs2"
  have ch: "collect_children xf d
      (GetFilteredChildren (import_instance_proxies (m_params s)) cs) s = (crs, s1)"
    unfolding visits_child.hyps(3) collect_children_append
    by (cases rc) (simp_all add: b cc af crs_def)
  have a_lo: "length (heap sc) \<le> a" using ih(3) assms(3) by simp
  have a_hi: "a < length (heap sc')" using ih(4) assms(4) by simp
  have "a \<notin> set rs0" using g0(2) a_lo by (auto simp: top_reader_def)
  moreover have "a \<notin> set rs2" using g2(2) a_hi by (auto simp: top_reader_def)
  ultimately have notin: "a \<notin> set crs"
    using ih(2) by (auto simp: crs_def split: option.splits)
  have d1: "deref s1 a = deref sP' a"
    using g2(1) a_hi ih(1) by (simp add: grows_def)
  have len: "length (heap s) \<le> length (heap sP)" "length (heap sP') \<le> length (heap s1)"
    using g0(1) g2(1) ih(3,4) by (simp_all add: grows_def)
  show ?case
  proof (cases par)
    case None
    then have "r = None" "s' = s1"
      using visits_child.prems visits_child.hyps(1,2) ch
      by (auto simp: collect_readers_prim_unfold)
    then show ?thesis using d1 len by simp
  next
    case (Some pd)
    then have t: "prim_tail xf ?p crs s1 = (r, s')"
      using visits_child.prems visits_child.hyps(1,2) ch
      by (auto simp: collect_readers_prim_unfold)
    have "a < length (heap s1)" using len(2) assms(4) by simp
    then show ?thesis using prim_tail_untouched [OF notin _ t] d1 len by simp
  qed
qed

text \<open>
  Claim C8. Let a prim be reached in the traversal of some prim above it (or be that prim
  itself), let no reader class apply to it, and let it not be merged into a single child.
  Then the call for the prim returns nothing and leaves the state as the loop over its
  children left it. Every child reader that loop collected is live with no parent, and
  when the enclosing traversal has finished the reader is exactly as it was: its parent
  was set by no ancestor, it is not the reader the enclosing call returns, it is still in
  the vector of readers, and its host object has been created.
\<close>

theorem dropped_children:
  assumes visit: "visits xf parP (Node d cs) sP par n s"
    and children: "collect_children xf d
        (GetFilteredChildren (import_instance_proxies (m_params sP)) cs) sP = (crs, s1)"
    and no_reader: "reader_class_for (m_params sP) d = None"
    and not_merged: "\<not> (length crs = 1 \<and> fst (merge_with_parent xf (hd crs) s1))"
    and whole: "collect_readers_prim xf par n s = (r, s')"
  shows "collect_readers_prim xf parP (Node d cs) sP = (None, s1) \<and>
         (\<forall>c\<in>set crs.
            (\<exists>rc. deref s1 c = Some rc \<and> reader_parent rc = None \<and>
                  deref s' c = Some rc) \<and>
            r \<noteq> Some c \<and>
            Some c \<in> set (m_readers s') \<and> c \<in> set (bmain s'))"
proof -
  let ?p = "\<lparr>GetData = d, GetParent = parP\<rparr>"
  have inv: "grows sP s1" "\<forall>c\<in>set crs. top_reader sP s1 (Some d) c"
    using traversal_inv(2) [OF children] by simp_all
  have ps: "m_params s1 = m_params sP" using inv(1) by (simp add: grows_def)
  have ni: "\<not> IsA d UsdGeomImageable"
    using no_reader reader_class_for_none [of "m_params sP" d] by simp
  have m: "(if length crs = 1 then merge_with_parent xf (hd crs) s1 else (False, s1)) = (False, s1)"
    using not_merged merge_with_parent_cases [of xf "hd crs" s1]
    by (cases "merge_with_parent xf (hd crs) s1") auto
  have "prim_tail xf ?p crs s1 = (None, s1)"
    unfolding prim_tail_def m
    using create_reader_none [of s1 ?p] no_reader by (simp add: ps)
  then have ret: "collect_readers_prim xf parP (Node d cs) sP = (None, s1)"
    using ni children by (simp add: collect_readers_prim_unfold)
  have g: "grows s s'"
    using traversal_inv(1) [OF whole] by simp
  have each: "(\<exists>rc. deref s1 c = Some rc \<and> reader_parent rc = None \<and> deref s' c = Some rc) \<and>
            r \<noteq> Some c \<and> Some c \<in> set (m_readers s') \<and> c \<in> set (bmain s')"
    if "c \<in> set crs" for c
  proof -
    have top: "top_reader sP s1 (Some d) c" using inv(2) that by blast
    then have rng: "length (heap sP) \<le> c" "c < length (heap s1)"
      by (simp_all add: top_reader_def)
    obtain rc where rc: "deref s1 c = Some rc" "reader_parent rc = None"
      using top by (auto simp: top_reader_def)
    have u: "deref s' c = deref s1 c" "r \<noteq> Some c"
      "length (heap s) \<le> length (heap sP)" "length (heap s1) \<le> length (heap s')"
      using visit_untouched [OF visit ret rng whole] by simp_all
    have "c \<in> set [length (heap s)..<length (heap s')]" using u(3,4) rng by simp
    then have "Some c \<in> set (m_readers s')" "c \<in> set (bmain s')"
      using g by (simp_all add: grows_def)
    then show ?thesis using rc u by simp
  qed
  show ?thesis using ret each by blast
qed


theorem dropped_children_witness:
  "fst (collect_readers_prim (\<lambda>k. True) (Some (mk_prim ''/A'' [UsdGeomXform, UsdGeomImageable]))
         (Node (mk_prim ''/A/G'' [])
            [Node (mk_prim ''/A/G/M'' [UsdGeomMesh, UsdGeomImageable]) []])
         fresh_reader) = None \<and>
   fst (collect_readers_prim (\<lambda>k. True) None orphan_stage fresh_reader) = None \<and>
   m_readers (snd (collect_readers_prim (\<lambda>k. True) None orphan_stage fresh_reader))
     = [Some 0, Some 1, Some 2, Some 3] \<and>
   bmain (snd (collect_readers_prim (\<lambda>k. True) None orphan_stage fresh_reader))
     = [0, 1, 2, 3] \<and>
   map (map_option (\<lambda>r. (prim_path (GetData (reader_prim r)), reader_class r, reader_parent r)))
     (heap (snd (collect_readers_prim (\<lambda>k. True) None orphan_stage fresh_reader)))
     = [Some (''/A/G/M'', USDMeshReader, None),
        Some (''/A/M2'', USDMeshReader, Some 3),
        Some (''/A/M3'', USDMeshReader, Some 3),
        Some (''/A'', USDXformReader, None)]"
proof -
  let ?xf = "\<lambda>k::reader_class. True"
  let ?A = "mk_prim ''/A'' [UsdGeomXform, UsdGeomImageable]"
  let ?G = "mk_prim ''/A/G'' []"
  let ?Mn = "Node (mk_prim ''/A/G/M'' [UsdGeomMesh, UsdGeomImageable]) []"
  let ?Gn = "Node ?G [?Mn]"
  let ?M2n = "Node (mk_prim ''/A/M2'' [UsdGeomMesh, UsdGeomImageable]) []"
  let ?M3n = "Node (mk_prim ''/A/M3'' [UsdGeomMesh, UsdGeomImageable]) []"
  let ?An = "Node ?A [?Gn, ?M2n, ?M3n]"
  let ?S = fresh_reader
  have v1: "visits ?xf (Some ?A) ?Gn ?S (Some ?A) ?Gn ?S" by (rule visits_here)
  have v2: "visits ?xf (Some ?A) ?Gn ?S (Some (mk_prim ''/'' [])) ?An ?S"
  proof (rule visits_child [where before = "[]" and c = ?Gn and after = "[?M2n, ?M3n]"])
    show "\<not> (IsA ?A UsdGeomImageable \<and> \<not> include_by_purpose (m_params ?S) ?A)"
      "\<not> (IsA ?A UsdGeomImageable \<and> \<not> include_by_visibility (m_params ?S) ?A)"
      "GetFilteredChildren (import_instance_proxies (m_params ?S)) [?Gn, ?M2n, ?M3n]
         = [] @ ?Gn # [?M2n, ?M3n]"
      by (simp_all add: eval_defs fresh_reader_def)
    show "visits ?xf (Some ?A) ?Gn ?S (Some ?A) ?Gn (snd (collect_children ?xf ?A [] ?S))"
      using v1 by simp
  qed
  have v3: "visits ?xf (Some ?A) ?Gn ?S None orphan_stage ?S"
    unfolding orphan_stage_def
  proof (rule visits_child [where before = "[]" and c = ?An and after = "[]"])
    show "\<not> (IsA (mk_prim ''/'' []) UsdGeomImageable
              \<and> \<not> include_by_purpose (m_params ?S) (mk_prim ''/'' []))"
      "\<not> (IsA (mk_prim ''/'' []) UsdGeomImageable
              \<and> \<not> include_by_visibility (m_params ?S) (mk_prim ''/'' []))"
      "GetFilteredChildren (import_instance_proxies (m_params ?S)) [?An] = [] @ ?An # []"
      by (simp_all add: eval_defs fresh_reader_def)
    show "visits ?xf (Some ?A) ?Gn ?S (Some (mk_prim ''/'' [])) ?An
            (snd (collect_children ?xf (mk_prim ''/'' []) [] ?S))"
      using v2 by simp
  qed
  have ch: "collect_children ?xf ?G
        (GetFilteredChildren (import_instance_proxies (m_params ?S)) [?Mn]) ?S
      = ([0], snd (collect_children ?xf ?G
        (GetFilteredChildren (import_instance_proxies (m_params ?S)) [?Mn]) ?S))"
    by (simp add: eval_defs fresh_reader_def)
  have nr: "reader_class_for (m_params ?S) ?G = None"
    by (simp add: reader_class_for_def category_order_def eval_defs fresh_reader_def)
  have nm: "\<not> (length [0::nat] = 1 \<and> fst (merge_with_parent ?xf (hd [0])
        (snd (collect_children ?xf ?G
        (GetFilteredChildren (import_instance_proxies (m_params ?S)) [?Mn]) ?S))))"
    by (simp add: eval_defs fresh_reader_def)
  have w: "collect_readers_prim ?xf None orphan_stage ?S
      = (None, snd (collect_readers_prim ?xf None orphan_stage ?S))"
    by (simp add: eval_defs fresh_reader_def orphan_stage_def)
  have ev: "m_readers (snd (collect_readers_prim ?xf None orphan_stage ?S))
     = [Some 0, Some 1, Some 2, Some 3]"
    "bmain (snd (collect_readers_prim ?xf None orphan_stage ?S)) = [0, 1, 2, 3]"
    "map (map_option (\<lambda>r. (prim_path (GetData (reader_prim r)), reader_class r, reader_parent r)))
     (heap (snd (collect_readers_prim ?xf None orphan_stage ?S)))
     = [Some (''/A/G/M'', USDMeshReader, None),
        Some (''/A/M2'', USDMeshReader, Some 3),
        Some (''/A/M3'', USDMeshReader, Some 3),
        Some (''/A'', USDXformReader, None)]"
    by (simp_all add: eval_defs fresh_reader_def orphan_stage_def)
  have "fst (collect_readers_prim ?xf (Some ?A) ?Gn ?S) = None"
    using dropped_children [OF v3 ch nr nm w] by (metis fst_conv)
  then show ?thesis using w ev by (metis fst_conv)
qed

end
